theory Spec2Isabelle
  imports Complex_Main "HOL-Library.Multiset"
begin

section \<open>The search core of \<open>strategies.py\<close> (class \<open>CS4701Bot\<close>)\<close>

text \<open>
  Numbers. Python mixes unbounded integers and floats: the evaluation is an integer, or an
  integer plus a multiple of one half (the factor 1.5 of the endgame), and clock readings are
  floats. All of them are embedded into \<^typ>\<open>real\<close>; the scores are exact in binary floating
  point (integers and halves of small magnitude), the arithmetic on times is idealised.
\<close>

subsection \<open>Errors\<close>

datatype error = IndexError | AttributeError | TypeError

definition bind :: "error + 'a \<Rightarrow> ('a \<Rightarrow> error + 'b) \<Rightarrow> error + 'b" where
  "bind m f = (case m of Inl e \<Rightarrow> Inl e | Inr v \<Rightarrow> f v)"

definition py_index :: "'a list \<Rightarrow> int \<Rightarrow> error + 'a" where
  \<comment> \<open>\<open>xs[i]\<close>: an index from \<open>-len(xs)\<close> to \<open>-1\<close> counts from the end, an index
      outside \<open>-len(xs) .. len(xs) - 1\<close> raises.\<close>
  "py_index xs i =
     (if 0 \<le> i \<and> i < int (length xs) then Inr (xs ! nat i)
      else if - int (length xs) \<le> i \<and> i < 0 then Inr (xs ! nat (int (length xs) + i))
      else Inl IndexError)"

definition py_store :: "'a list \<Rightarrow> int \<Rightarrow> 'a \<Rightarrow> error + 'a list" where
  \<comment> \<open>\<open>xs[i] = v\<close>, with the same index rules.\<close>
  "py_store xs i v =
     (if 0 \<le> i \<and> i < int (length xs) then Inr (xs[nat i := v])
      else if - int (length xs) \<le> i \<and> i < 0 then Inr (xs[nat (int (length xs) + i) := v])
      else Inl IndexError)"

subsection \<open>Constants and piece-square tables\<close>

definition PAWN_VALUE :: real where "PAWN_VALUE = 100"
definition KNIGHT_VALUE :: real where "KNIGHT_VALUE = 305"
definition BISHOP_VALUE :: real where "BISHOP_VALUE = 333"
definition ROOK_VALUE :: real where "ROOK_VALUE = 563"
definition QUEEN_VALUE :: real where "QUEEN_VALUE = 950"

definition MATE_VALUE :: real where "MATE_VALUE = 100000"
definition POS_MAX :: real where "POS_MAX = 1000000"
definition NEG_MAX :: real where "NEG_MAX = - 1000000"

definition pawntable :: "real list" where
  "pawntable = [
    0,  0,  0,  0,  0,  0,  0,  0,
    5, 10, 10, -20, -20, 10, 10,  5,
    5, -5, -10,  0,  0, -10, -5,  5,
    0,  0,  0, 20, 20,  0,  0,  0,
    5,  5, 10, 25, 25, 10,  5,  5,
    10, 10, 20, 30, 30, 20, 10, 10,
    50, 50, 50, 50, 50, 50, 50, 50,
    100,  100,  100,  100,  100,  100,  100,  100]"

definition knighttable :: "real list" where
  "knighttable = [
    -50, -40, -30, -30, -30, -30, -40, -50,
    -40, -20,  0,  5,  5,  0, -20, -40,
    -30,  5, 10, 15, 15, 10,  5, -30,
    -30,  0, 15, 20, 20, 15,  0, -30,
    -30,  5, 15, 20, 20, 15,  5, -30,
    -30,  0, 10, 15, 15, 10,  0, -30,
    -40, -20,  0,  0,  0,  0, -20, -40,
    -50, -40, -30, -30, -30, -30, -40, -50]"

definition bishoptable :: "real list" where
  "bishoptable = [
    -20, -10, -10, -10, -10, -10, -10, -20,
    -10,  5,  0,  0,  0,  0,  5, -10,
    -10, 10, 10, 10, 10, 10, 10, -10,
    -10,  0, 10, 10, 10, 10,  0, -10,
    -10,  5,  5, 10, 10,  5,  5, -10,
    -10,  0,  5, 10, 10,  5,  0, -10,
    -10,  0,  0,  0,  0,  0,  0, -10,
    -20, -10, -10, -10, -10, -10, -10, -20]"

definition rooktable :: "real list" where
  "rooktable = [
    0,  0,  0,  5,  5,  0,  0,  0,
    -5,  0,  0,  0,  0,  0,  0, -5,
    -5,  0,  0,  0,  0,  0,  0, -5,
    -5,  0,  0,  0,  0,  0,  0, -5,
    -5,  0,  0,  0,  0,  0,  0, -5,
    -5,  0,  0,  0,  0,  0,  0, -5,
    5, 10, 10, 10, 10, 10, 10,  5,
    0,  0,  0,  0,  0,  0,  0,  0]"

definition queentable :: "real list" where
  "queentable = [
    -20, -10, -10, -5, -5, -10, -10, -20,
    -10,  0,  0,  0,  0,  0,  0, -10,
    -10,  5,  5,  5,  5,  5,  0, -10,
    0,  0,  5,  5,  5,  5,  0, -5,
    -5,  0,  5,  5,  5,  5,  0, -5,
    -10,  0,  5,  5,  5,  5,  0, -10,
    -10,  0,  0,  0,  0,  0,  0, -10,
    -20, -10, -10, -5, -5, -10, -10, -20]"

definition kingtable :: "real list" where
  "kingtable = [
    20, 30, 10,  0,  0, 10, 30, 20,
    20, 20,  0,  0,  0,  0, 20, 20,
    -10, -20, -20, -20, -20, -20, -20, -10,
    -20, -30, -30, -40, -40, -30, -30, -20,
    -30, -40, -40, -50, -50, -40, -40, -30,
    -30, -40, -40, -50, -50, -40, -40, -30,
    -30, -40, -40, -50, -50, -40, -40, -30,
    -30, -40, -40, -50, -50, -40, -40, -30]"

definition kingtableend :: "real list" where
  "kingtableend = [
    -50, -30, -30, -30, -30, -30, -30, -50,
    -30, -30,  0,  0,  0,  0, -30, -30,
    -30, -10, 20, 30, 30, 20, -10, -30,
    -30, -10, 30, 40, 40, 30, -10, -30,
    -30, -10, 30, 40, 40, 30, -10, -30,
    -30, -10, 20, 30, 30, 20, -10, -30,
    -30, -20, -10,  0,  0, -10, -20, -30,
    -50, -40, -30, -20, -20, -30, -40, -50]"

subsection \<open>Pieces, moves, positions and the board\<close>

text \<open>
  The rules engine (the \<open>chess\<close> library) is not part of the repository. A position is given
  here together with the engine's answers about it: the piece on each square, the side to
  move (\<open>True\<close> is white, as \<open>chess.WHITE\<close>), whether the side to move is in check, and the
  legal moves in the order the engine generates them, each with the engine's answers about
  the move and the position it leads to. A search visits finitely many positions (a bounded
  number of plies, then captures only), so the part of the game it can see is such a tree.
\<close>

datatype piece_type = PAWN | KNIGHT | BISHOP | ROOK | QUEEN | KING

datatype piece = Piece (piece_type: piece_type) (color: bool)

datatype move = Move (from_square: nat) (to_square: nat) (promotion: "piece_type option")

definition null_move :: move where
  \<comment> \<open>\<open>chess.Move.null()\<close>\<close>
  "null_move = Move 0 0 None"

datatype position =
  Position (piece_map: "nat \<rightharpoonup> piece") (turn: bool) (is_check: bool)
    (legal_moves: "legal_move list")
and legal_move =
  LegalMove (move: move) (is_castling: bool) (gives_check: bool) (is_capture: bool)
    (is_en_passant: bool) (result: position)

record board =
  cur :: position
  stack :: "position list"

definition push :: "legal_move \<Rightarrow> board \<Rightarrow> board" where
  \<comment> \<open>Modelled from the spec: the rules engine's reversible "apply a move" (\<open>Board.push\<close> of
      the \<open>chess\<close> library, not under src/): the position before the move is kept on a
      stack. The search only pushes legal moves of the current position.\<close>
  "push mv b = \<lparr>cur = result mv, stack = cur b # stack b\<rparr>"

definition pop :: "board \<Rightarrow> error + board" where
  \<comment> \<open>Modelled from the spec: the rules engine's "undo the most recently applied move"
      (\<open>Board.pop\<close>, not under src/); with nothing to undo it raises.\<close>
  "pop b = (case stack b of [] \<Rightarrow> Inl IndexError | p # ps \<Rightarrow> Inr \<lparr>cur = p, stack = ps\<rparr>)"

definition pieces :: "board \<Rightarrow> piece_type \<Rightarrow> bool \<Rightarrow> nat list" where
  \<comment> \<open>\<open>board.pieces(piece_type, color)\<close>: the squares 0..63 holding such a piece, ascending.\<close>
  "pieces b pt c = filter (\<lambda>sq. piece_map (cur b) sq = Some (Piece pt c)) [0..<64]"

definition piece_at :: "board \<Rightarrow> nat \<Rightarrow> piece option" where
  "piece_at b sq = piece_map (cur b) sq"

subsection \<open>The evaluator\<close>

text \<open>
  \<open>positionalValue\<close> (lines 181-194) and \<open>CS4701Bot.eval\<close> (lines 215-274). A table is read
  with Python's index rules; the sums of line 244 and the following run over the squares of
  \<open>pieces\<close> in order and stop at the first read that raises.
\<close>

definition positionalValue :: "nat \<Rightarrow> piece_type \<Rightarrow> bool \<Rightarrow> bool \<Rightarrow> error + real" where
  "positionalValue square pt col endgame =
     (let square = (if col then int square else 63 - int square) in
      case pt of
        PAWN \<Rightarrow> py_index pawntable square
      | KNIGHT \<Rightarrow> py_index knighttable square
      | BISHOP \<Rightarrow> py_index bishoptable square
      | ROOK \<Rightarrow> py_index rooktable square
      | QUEEN \<Rightarrow> py_index queentable square
      | KING \<Rightarrow> (if endgame then py_index kingtableend square else py_index kingtable square))"

fun positional_sum :: "piece_type \<Rightarrow> bool \<Rightarrow> bool \<Rightarrow> nat list \<Rightarrow> error + real" where
  \<comment> \<open>\<open>sum([positionalValue(i, pt, col, endgame) for i in squares])\<close>\<close>
  "positional_sum pt col endgame [] = Inr 0"
| "positional_sum pt col endgame (i # sqs) =
     bind (positionalValue i pt col endgame) (\<lambda>v.
     bind (positional_sum pt col endgame sqs) (\<lambda>r. Inr (v + r)))"

definition whitematerial :: "board \<Rightarrow> real" where
  "whitematerial b =
     real (length (pieces b KNIGHT True)) * KNIGHT_VALUE
     + real (length (pieces b BISHOP True)) * BISHOP_VALUE
     + real (length (pieces b ROOK True)) * ROOK_VALUE
     + real (length (pieces b QUEEN True)) * QUEEN_VALUE"

definition blackmaterial :: "board \<Rightarrow> real" where
  "blackmaterial b =
     real (length (pieces b KNIGHT False)) * KNIGHT_VALUE
     + real (length (pieces b BISHOP False)) * BISHOP_VALUE
     + real (length (pieces b ROOK False)) * ROOK_VALUE
     + real (length (pieces b QUEEN False)) * QUEEN_VALUE"

definition whitepawns :: "board \<Rightarrow> real" where
  "whitepawns b = real (length (pieces b PAWN True)) * PAWN_VALUE"

definition blackpawns :: "board \<Rightarrow> real" where
  \<comment> \<open>line 235: \<open>blackpawns = len(wps) * PAWN_VALUE\<close>\<close>
  "blackpawns b = real (length (pieces b PAWN True)) * PAWN_VALUE"

definition endgame :: "board \<Rightarrow> bool" where
  "endgame b =
     (let endgamew = (length (pieces b QUEEN True) = 0 \<or> whitematerial b < 1300);
          endgameb = (length (pieces b QUEEN False) = 0 \<or> blackmaterial b < 1300)
      in endgamew \<and> endgameb)"

definition whiteeval :: "board \<Rightarrow> error + real" where
  \<comment> \<open>lines 242-255\<close>
  "whiteeval b =
     (let eg = endgame b in
      bind (positional_sum PAWN True eg (pieces b PAWN True)) (\<lambda>ps.
      bind (positional_sum KNIGHT True eg (pieces b KNIGHT True)) (\<lambda>ns.
      bind (positional_sum BISHOP True eg (pieces b BISHOP True)) (\<lambda>bs.
      bind (positional_sum ROOK True eg (pieces b ROOK True)) (\<lambda>rs.
      bind (positional_sum QUEEN True eg (pieces b QUEEN True)) (\<lambda>qs.
      bind (positional_sum KING True eg (pieces b KING True)) (\<lambda>ks.
        Inr (whitematerial b + whitepawns b
             + (if eg then 3 / 2 else 1) * ps + ns + bs + rs + qs + ks))))))))"

definition blackeval :: "board \<Rightarrow> error + real" where
  \<comment> \<open>lines 258-271\<close>
  "blackeval b =
     (let eg = endgame b in
      bind (positional_sum PAWN False eg (pieces b PAWN False)) (\<lambda>ps.
      bind (positional_sum KNIGHT False eg (pieces b KNIGHT False)) (\<lambda>ns.
      bind (positional_sum BISHOP False eg (pieces b BISHOP False)) (\<lambda>bs.
      bind (positional_sum ROOK False eg (pieces b ROOK False)) (\<lambda>rs.
      bind (positional_sum QUEEN False eg (pieces b QUEEN False)) (\<lambda>qs.
      bind (positional_sum KING False eg (pieces b KING False)) (\<lambda>ks.
        Inr (blackmaterial b + blackpawns b
             + (if eg then 3 / 2 else 1) * ps + ns + bs + rs + qs + ks))))))))"

definition eval :: "board \<Rightarrow> error + real" where
  "eval b =
     bind (whiteeval b) (\<lambda>w.
     bind (blackeval b) (\<lambda>bl.
       Inr (if turn (cur b) then w - bl else bl - w)))"

definition scoreEnd :: "board \<Rightarrow> nat \<Rightarrow> real" where
  \<comment> \<open>lines 276-280\<close>
  "scoreEnd b depth = (if is_check (cur b) then - MATE_VALUE + real depth else 0)"

definition gen_moves_q :: "board \<Rightarrow> legal_move list" where
  \<comment> \<open>lines 207-213\<close>
  "gen_moves_q b = filter is_capture (legal_moves (cur b))"



subsection \<open>Move ordering\<close>

text \<open>
  \<open>gen_moves\<close> (lines 282-322). \<open>piece_at(...)\<close> is \<open>None\<close> on an empty square, and
  reading \<open>.piece_type\<close> of it raises.
\<close>

definition heuristic :: "board \<Rightarrow> legal_move \<Rightarrow> error + real" where
  "heuristic b mv =
     (if is_castling mv then Inr 200
      else case piece_at b (from_square (move mv)) of
        None \<Rightarrow> Inl AttributeError
      | Some p \<Rightarrow>
          (let piece = piece_type p;
               score = (if gives_check mv then 1000 else 0)
           in bind
             (if is_capture mv then
                (if piece = PAWN \<and> is_en_passant mv then Inr (score + PAWN_VALUE)
                 else case piece_at b (to_square (move mv)) of
                   None \<Rightarrow> Inl AttributeError
                 | Some op \<Rightarrow>
                     Inr (case piece_type op of
                            PAWN \<Rightarrow> score + PAWN_VALUE
                          | KNIGHT \<Rightarrow> score + KNIGHT_VALUE
                          | BISHOP \<Rightarrow> score + BISHOP_VALUE
                          | ROOK \<Rightarrow> score + ROOK_VALUE
                          | QUEEN \<Rightarrow> score + QUEEN_VALUE
                          | KING \<Rightarrow> score))
              else Inr score)
             (\<lambda>score.
                if piece \<noteq> KING then
                  bind (positionalValue (to_square (move mv)) piece (turn (cur b)) False) (\<lambda>to_pos.
                  bind (positionalValue (from_square (move mv)) piece (turn (cur b)) False) (\<lambda>from_pos.
                    Inr (score + (to_pos - from_pos))))
                else Inr score)))"

fun keyed :: "board \<Rightarrow> legal_move list \<Rightarrow> error + (real \<times> legal_move) list" where
  \<comment> \<open>the keys \<open>sorted\<close> computes, one call of \<open>heuristic\<close> per move, in list order\<close>
  "keyed b [] = Inr []"
| "keyed b (mv # mvs) =
     bind (heuristic b mv) (\<lambda>k. bind (keyed b mvs) (\<lambda>r. Inr ((k, mv) # r)))"

definition gen_moves :: "board \<Rightarrow> error + legal_move list" where
  \<comment> \<open>\<open>sorted(movelist, key=heuristic, reverse=True)\<close>: descending keys, and stable (moves
      with equal keys keep the order of \<open>movelist\<close>).\<close>
  "gen_moves b =
     bind (keyed b (legal_moves (cur b))) (\<lambda>ks. Inr (map snd (sort_key (\<lambda>km. - fst km) ks)))"

subsection \<open>The state of one call of \<open>search\<close>\<close>

text \<open>
  What the nested functions of \<open>search\<close> share and change: the board \<open>self._board\<close>, the
  three lists of per-depth records, and the wall clock, of which \<open>ticks\<close> counts the
  readings taken so far.
\<close>

record search_state =
  self_board :: board
  ticks :: nat
  best_eval :: "real list"
  depth_time :: "real list"
  best_move :: "move list"

definition time_call :: "(nat \<Rightarrow> real) \<Rightarrow> search_state \<Rightarrow> real \<times> search_state" where
  \<comment> \<open>\<open>time()\<close>: the wall clock is a sequence of readings \<open>now 0, now 1, ...\<close>, one per call.\<close>
  "time_call now s = (now (ticks s), s\<lparr>ticks := Suc (ticks s)\<rparr>)"

definition push_move :: "legal_move \<Rightarrow> search_state \<Rightarrow> search_state" where
  "push_move mv s = s\<lparr>self_board := push mv (self_board s)\<rparr>"

definition pop_move :: "search_state \<Rightarrow> error + search_state" where
  "pop_move s = bind (pop (self_board s)) (\<lambda>b. Inr (s\<lparr>self_board := b\<rparr>))"

subsection \<open>Quiescence search\<close>

text \<open>
  \<open>quiescence_search\<close> (lines 381-395). The loop over the capture moves is
  \<open>quiescence_loop\<close>, on the moves still to try, with the current \<open>alpha\<close>.
\<close>

function quiescence_search :: "real \<Rightarrow> real \<Rightarrow> search_state \<Rightarrow> error + (real \<times> search_state)"
  and quiescence_loop :: "real \<Rightarrow> real \<Rightarrow> legal_move list \<Rightarrow> search_state \<Rightarrow> error + (real \<times> search_state)"
where
  "quiescence_search alpha beta s =
     (case eval (self_board s) of
        Inl e \<Rightarrow> Inl e
      | Inr standpat \<Rightarrow>
          if standpat \<ge> beta then Inr (beta, s)
          else quiescence_loop (if alpha < standpat then standpat else alpha) beta
                 (gen_moves_q (self_board s)) s)"
| "quiescence_loop alpha beta [] s = Inr (alpha, s)"
| "quiescence_loop alpha beta (mv # mvs) s =
     (case quiescence_search (- beta) (- alpha) (push_move mv s) of
        Inl e \<Rightarrow> Inl e
      | Inr (r, s1) \<Rightarrow>
          (case pop_move s1 of
             Inl e \<Rightarrow> Inl e
           | Inr s2 \<Rightarrow>
               (let val = - r in
                if val \<ge> beta then Inr (beta, s2)
                else quiescence_loop (if val > alpha then val else alpha) beta mvs s2)))"
  by pat_completeness auto

lemma size_list_filter_le: "size_list f (filter P xs) \<le> size_list f xs"
  by (induction xs) simp_all

lemma size_result: "size (result mv) < size mv"
  by (cases mv) simp

lemma size_cur: "size p = Suc (size_list size (legal_moves p))"
  by (cases p) simp

termination quiescence_search
proof (relation "measure (\<lambda>x. case x of
          Inl (a, b, s) \<Rightarrow> 2 * size (cur (self_board s))
        | Inr (a, b, mvs, s) \<Rightarrow> 2 * size_list size mvs + 1)", goal_cases)
  case 1
  show ?case by simp
next
  case (2 alpha beta s standpat)
  have "size_list size (gen_moves_q (self_board s)) \<le> size_list size (legal_moves (cur (self_board s)))"
    unfolding gen_moves_q_def by (rule size_list_filter_le)
  then show ?case by (simp add: size_cur[of "cur (self_board s)"])
next
  case (3 alpha beta mv mvs s)
  show ?case using size_result[of mv] by (simp add: push_move_def push_def)
next
  case (4 alpha beta mv mvs s x r s1 s2)
  show ?case by simp
qed


subsection \<open>Alpha-beta search\<close>

text \<open>
  \<open>ab_search\<close> (lines 340-378), with the clock \<open>now\<close> and the \<open>start_time\<close> of the enclosing
  \<open>search\<close> as parameters. The loop over the ordered moves is \<open>ab_loop\<close>; the time check
  of line 364 reads the clock once per move, and on leaving the loop line 366 reads
  \<open>best_move[md]\<close> for printing.
\<close>

definition record_best :: "nat \<Rightarrow> legal_move \<Rightarrow> real \<Rightarrow> search_state \<Rightarrow> error + search_state" where
  \<comment> \<open>\<open>best_move[md] = mv; best_eval[md] = val\<close>\<close>
  "record_best md mv val s =
     bind (py_store (best_move s) (int md) (move mv)) (\<lambda>bm.
     bind (py_store (best_eval s) (int md) val) (\<lambda>be.
       Inr (s\<lparr>best_move := bm, best_eval := be\<rparr>)))"

function ab_search ::
    "(nat \<Rightarrow> real) \<Rightarrow> real \<Rightarrow> nat \<Rightarrow> nat \<Rightarrow> real \<Rightarrow> real \<Rightarrow> real \<Rightarrow> search_state
      \<Rightarrow> error + (real \<times> search_state)"
  and ab_loop ::
    "(nat \<Rightarrow> real) \<Rightarrow> real \<Rightarrow> nat \<Rightarrow> nat \<Rightarrow> real \<Rightarrow> real \<Rightarrow> real \<Rightarrow> legal_move list
      \<Rightarrow> search_state \<Rightarrow> error + (real \<times> search_state)"
where
  "ab_search now start_time d md alpha beta time_lim s =
     (if d = md then quiescence_search alpha beta s
      else case gen_moves (self_board s) of
        Inl e \<Rightarrow> Inl e
      | Inr moves \<Rightarrow>
          if length moves = 0 then Inr (scoreEnd (self_board s) d, s)
          else ab_loop now start_time d md alpha beta time_lim moves s)"
| "ab_loop now start_time d md alpha beta time_lim [] s = Inr (alpha, s)"
| "ab_loop now start_time d md alpha beta time_lim (mv # mvs) s =
     (case time_call now s of (t, s0) \<Rightarrow>
        if t - start_time \<ge> time_lim then
          (case py_index (best_move s0) (int md) of
             Inl e \<Rightarrow> Inl e
           | Inr printed \<Rightarrow> Inr (alpha, s0))
        else
          (case ab_search now start_time (d + 1) md (- beta) (- alpha) time_lim (push_move mv s0) of
             Inl e \<Rightarrow> Inl e
           | Inr (r, s1) \<Rightarrow>
               (case pop_move s1 of
                  Inl e \<Rightarrow> Inl e
                | Inr s2 \<Rightarrow>
                    (let val = - r in
                     if val \<ge> beta then Inr (beta, s2)
                     else if val > alpha then
                       (if d = 0 then
                          (case record_best md mv val s2 of
                             Inl e \<Rightarrow> Inl e
                           | Inr s3 \<Rightarrow> ab_loop now start_time d md val beta time_lim mvs s3)
                        else ab_loop now start_time d md val beta time_lim mvs s2)
                     else ab_loop now start_time d md alpha beta time_lim mvs s2))))"
  by pat_completeness auto

lemma keyed_snd: "keyed b mvs = Inr ks \<Longrightarrow> map snd ks = mvs"
  by (induction mvs arbitrary: ks) (auto simp: bind_def split: sum.splits)

lemma gen_moves_mset: "gen_moves b = Inr moves \<Longrightarrow> mset moves = mset (legal_moves (cur b))"
proof -
  assume "gen_moves b = Inr moves"
  then obtain ks where ks: "keyed b (legal_moves (cur b)) = Inr ks"
    and m: "moves = map snd (sort_key (\<lambda>km. - fst km) ks)"
    by (auto simp: gen_moves_def bind_def split: sum.splits)
  have "mset moves = image_mset snd (mset ks)" by (simp add: m)
  also have "\<dots> = mset (map snd ks)" by simp
  finally show ?thesis by (simp add: keyed_snd[OF ks])
qed

lemma size_list_mset: "mset xs = mset ys \<Longrightarrow> size_list f xs = size_list f ys"
proof -
  assume e: "mset xs = mset ys"
  then have "mset (map f xs) = mset (map f ys)" by simp
  then have "sum_list (map f xs) = sum_list (map f ys)" by (metis sum_mset_sum_list)
  moreover have "length xs = length ys" using e by (rule mset_eq_length)
  ultimately show ?thesis by (simp add: size_list_conv_sum_list)
qed

lemma size_legal_move: "size mv = Suc (Suc (size_list size (legal_moves (result mv))))"
  by (cases mv) (simp add: size_cur)

lemma size_gen_moves:
  "gen_moves b = Inr moves \<Longrightarrow> size_list size moves = size_list size (legal_moves (cur b))"
  by (rule size_list_mset) (rule gen_moves_mset)

termination ab_search
proof (relation "measure (\<lambda>x. case x of
          Inl (now, st, d, md, a, b, tc, s) \<Rightarrow> 2 * size (cur (self_board s))
        | Inr (now, st, d, md, a, b, tc, mvs, s) \<Rightarrow> 2 * size_list size mvs + 1)", goal_cases)
  case 1
  show ?case by simp
next
  case 2
  then show ?case by (simp add: size_cur size_gen_moves)
next
  case (3 now start_time d md alpha beta time_lim mv mvs s)
  then show ?case using size_result[of mv]
    by (auto simp: time_call_def push_move_def push_def)
qed simp_all

subsection \<open>The driver: \<open>search\<close>\<close>

text \<open>
  \<open>CS4701Bot.search\<close> (lines 324-436). Of the time control only the two clocks are read;
  it is a value handed to \<open>search\<close>, which never writes it. \<open>get_c_time_left\<close> is lines
  398-405, \<open>deepen\<close> the loop of lines 414-432 on the depths still to run.
\<close>

record time_limit =
  white_clock :: "real option"
  black_clock :: "real option"

definition truthy :: "real option \<Rightarrow> bool" where
  \<comment> \<open>the truth value of an optional float: \<open>None\<close> and \<open>0.0\<close> are false\<close>
  "truthy c = (case c of None \<Rightarrow> False | Some x \<Rightarrow> x \<noteq> 0)"

definition get_c_time_left :: "board \<Rightarrow> time_limit \<Rightarrow> real option" where
  "get_c_time_left b tc =
     (if turn (cur b) \<and> truthy (white_clock tc) then white_clock tc
      else if truthy (black_clock tc) then black_clock tc
      else None)"

definition maxdepth :: nat where
  \<comment> \<open>\<open>self._maxdepth = 10\<close>\<close>
  "maxdepth = 10"

definition EXPECTED_MOVES :: real where
  "EXPECTED_MOVES = 65 / 2"

definition not_worth_it :: "real \<Rightarrow> time_limit \<Rightarrow> nat \<Rightarrow> search_state \<Rightarrow> error + bool" where
  \<comment> \<open>the condition of line 419\<close>
  "not_worth_it base_time_left tc d s =
     (case get_c_time_left (self_board s) tc of
        None \<Rightarrow> Inl TypeError
      | Some c \<Rightarrow>
          bind (py_index (depth_time s) (int d - 1)) (\<lambda>prev.
            Inr ((base_time_left / EXPECTED_MOVES) - base_time_left + c
                 < prev * sqrt (real (length (legal_moves (cur (self_board s))))))))"

fun deepen ::
    "(nat \<Rightarrow> real) \<Rightarrow> real \<Rightarrow> real \<Rightarrow> time_limit \<Rightarrow> nat list \<Rightarrow> search_state \<Rightarrow> error + move" where
  \<comment> \<open>the loop \<open>for d in range(self._maxdepth + 1)\<close> and the return after it\<close>
  "deepen now start_time base_time_left tc [] s = py_index (best_move s) (int maxdepth)"
| "deepen now start_time base_time_left tc (d # ds) s =
     bind (not_worth_it base_time_left tc d s) (\<lambda>stop.
       if stop then py_index (best_move s) (int d - 1)
       else
         (case time_call now s of (timer_for_depth, s1) \<Rightarrow>
            bind (ab_search now start_time 0 d NEG_MAX POS_MAX (base_time_left / EXPECTED_MOVES) s1)
              (\<lambda>(v, s2).
                 case time_call now s2 of (t2, s3) \<Rightarrow>
                   bind (py_store (depth_time s3) (int d) (t2 - timer_for_depth)) (\<lambda>dt.
                     case time_call now (s3\<lparr>depth_time := dt\<rparr>) of (t3, s4) \<Rightarrow>
                       if t3 - start_time \<ge> base_time_left / EXPECTED_MOVES
                       then py_index (best_move s4) (int d - 1)
                       else deepen now start_time base_time_left tc ds s4))))"

definition init_state :: "board \<Rightarrow> search_state" where
  "init_state b =
     \<lparr>self_board = b, ticks = 0,
      best_eval = replicate (maxdepth + 1) 0,
      depth_time = replicate (maxdepth + 1) 0,
      best_move = replicate (maxdepth + 1) null_move\<rparr>"

definition search :: "(nat \<Rightarrow> real) \<Rightarrow> board \<Rightarrow> time_limit \<Rightarrow> error + move" where
  \<comment> \<open>the move of the \<open>PlayResult\<close> returned\<close>
  "search now b tc =
     (case time_call now (init_state b) of (start_time, s) \<Rightarrow>
        (case get_c_time_left (self_board s) tc of
           None \<Rightarrow> Inl TypeError
         | Some base_time_left \<Rightarrow>
             if base_time_left \<le> 5 then
               bind (ab_search now start_time 0 2 NEG_MAX POS_MAX 100000 s)
                 (\<lambda>(v, s'). py_index (best_move s') 2)
             else deepen now start_time base_time_left tc [0..<maxdepth + 1] s))"

section \<open>Properties of the evaluator\<close>

subsection \<open>The evaluator in closed form\<close>

text \<open>
  The squares of \<open>pieces\<close> are always in the range of the tables, so the evaluator never
  raises; its value is a sum over the set of squares a piece type occupies.
\<close>

definition table_of :: "piece_type \<Rightarrow> bool \<Rightarrow> real list" where
  "table_of pt eg = (case pt of PAWN \<Rightarrow> pawntable | KNIGHT \<Rightarrow> knighttable | BISHOP \<Rightarrow> bishoptable
     | ROOK \<Rightarrow> rooktable | QUEEN \<Rightarrow> queentable | KING \<Rightarrow> (if eg then kingtableend else kingtable))"

definition square_value :: "piece_type \<Rightarrow> bool \<Rightarrow> bool \<Rightarrow> nat \<Rightarrow> real" where
  "square_value pt col eg sq = table_of pt eg ! (if col then sq else 63 - sq)"

lemma length_tables:
  "length pawntable = 64" "length knighttable = 64" "length bishoptable = 64"
  "length rooktable = 64" "length queentable = 64" "length kingtable = 64"
  "length kingtableend = 64"
  by (simp_all add: pawntable_def knighttable_def bishoptable_def rooktable_def
      queentable_def kingtable_def kingtableend_def)

lemma length_table_of: "length (table_of pt eg) = 64"
  by (cases pt) (simp_all add: table_of_def length_tables)

lemma py_index_in_range: "i < length xs \<Longrightarrow> py_index xs (int i) = Inr (xs ! i)"
  by (simp add: py_index_def)

lemma positionalValue_in_range:
  assumes "sq < 64"
  shows "positionalValue sq pt col eg = Inr (square_value pt col eg sq)"
proof -
  have idx: "(if col then int sq else 63 - int sq) = int (if col then sq else 63 - sq)"
    using assms by simp
  have lt: "(if col then sq else 63 - sq) < 64" using assms by (cases col) auto
  show ?thesis
    unfolding positionalValue_def Let_def idx square_value_def table_of_def
    using lt by (cases pt) (simp_all add: py_index_in_range length_tables)
qed

lemma positional_sum_closed:
  "\<forall>sq \<in> set sqs. sq < 64 \<Longrightarrow>
   positional_sum pt col eg sqs = Inr (sum_list (map (square_value pt col eg) sqs))"
  by (induction sqs) (simp_all add: positionalValue_in_range bind_def)

lemma pieces_lt: "sq \<in> set (pieces b pt c) \<Longrightarrow> sq < 64"
  by (simp add: pieces_def)

definition placed :: "board \<Rightarrow> piece_type \<Rightarrow> bool \<Rightarrow> nat set" where
  "placed b pt c = {sq. sq < 64 \<and> piece_map (cur b) sq = Some (Piece pt c)}"

lemma set_pieces: "set (pieces b pt c) = placed b pt c"
  by (auto simp: pieces_def placed_def)

lemma distinct_pieces: "distinct (pieces b pt c)"
  by (simp add: pieces_def)

lemma length_pieces: "length (pieces b pt c) = card (placed b pt c)"
  using distinct_card[OF distinct_pieces, of b pt c] by (simp add: set_pieces)

lemma sum_pieces: "sum_list (map f (pieces b pt c)) = sum f (placed b pt c)"
  using sum_list_distinct_conv_sum_set[OF distinct_pieces, of f b pt c] by (simp add: set_pieces)

lemma positional_sum_pieces:
  "positional_sum pt col eg (pieces b pt c) = Inr (sum (square_value pt col eg) (placed b pt c))"
  by (simp add: positional_sum_closed pieces_lt sum_pieces)


definition positional :: "board \<Rightarrow> piece_type \<Rightarrow> bool \<Rightarrow> real" where
  "positional b pt col = sum (square_value pt col (endgame b)) (placed b pt col)"

lemma whiteeval_closed:
  "whiteeval b = Inr (whitematerial b + whitepawns b
     + (if endgame b then 3 / 2 else 1) * positional b PAWN True + positional b KNIGHT True
     + positional b BISHOP True + positional b ROOK True + positional b QUEEN True
     + positional b KING True)"
  by (simp add: whiteeval_def Let_def positional_sum_pieces bind_def positional_def)

lemma blackeval_closed:
  "blackeval b = Inr (blackmaterial b + blackpawns b
     + (if endgame b then 3 / 2 else 1) * positional b PAWN False + positional b KNIGHT False
     + positional b BISHOP False + positional b ROOK False + positional b QUEEN False
     + positional b KING False)"
  by (simp add: blackeval_def Let_def positional_sum_pieces bind_def positional_def)

subsection \<open>Colour flip\<close>

text \<open>
  The colour flip of a position is the rules engine's \<open>Board.mirror()\<close>: every piece goes
  to the same file on the opposite rank and changes colour, the move passes to the other side,
  and every legal move and the position it leads to are flipped alike. The evaluator reads
  black's squares at \<open>63 - square\<close>, which turns the board by 180 degrees instead; the two
  differ by a left-right flip of the files. Both are instances of \<open>flipped\<close>, which moves
  the pieces along a map of the squares.
\<close>

definition swap_colour :: "piece \<Rightarrow> piece" where
  "swap_colour p = Piece (piece_type p) (\<not> color p)"

definition rotate_square :: "nat \<Rightarrow> nat" where
  "rotate_square s = 63 - s"



definition flip_move :: "(nat \<Rightarrow> nat) \<Rightarrow> move \<Rightarrow> move" where
  "flip_move f m = Move (f (from_square m)) (f (to_square m)) (promotion m)"

primrec flipped :: "(nat \<Rightarrow> nat) \<Rightarrow> position \<Rightarrow> position"
  and flipped_legal_move :: "(nat \<Rightarrow> nat) \<Rightarrow> legal_move \<Rightarrow> legal_move" where
  "flipped f (Position pm t chk lms) =
     Position (\<lambda>sq. if sq < 64 then map_option swap_colour (pm (f sq)) else None)
       (\<not> t) chk (map (flipped_legal_move f) lms)"
| "flipped_legal_move f (LegalMove m cas gc cap ep r) =
     LegalMove (flip_move f m) cas gc cap ep (flipped f r)"

definition flipped_board :: "(nat \<Rightarrow> nat) \<Rightarrow> board \<Rightarrow> board" where
  "flipped_board f b = \<lparr>cur = flipped f (cur b), stack = map (flipped f) (stack b)\<rparr>"


definition rotate_board :: "board \<Rightarrow> board" where
  "rotate_board b = flipped_board rotate_square b"

definition involution64 :: "(nat \<Rightarrow> nat) \<Rightarrow> bool" where
  "involution64 f \<longleftrightarrow> (\<forall>s<64. f s < 64 \<and> f (f s) = s)"





lemma involution_rotate: "involution64 rotate_square"
  by (auto simp: involution64_def rotate_square_def)




lemma turn_flipped: "turn (flipped f p) = (\<not> turn p)"
  by (cases p) simp

lemma piece_map_flipped:
  "piece_map (flipped f p) sq = (if sq < 64 then map_option swap_colour (piece_map p (f sq)) else None)"
  by (cases p) simp

lemma swap_colour_eq: "swap_colour q = Piece pt c \<longleftrightarrow> q = Piece pt (\<not> c)"
  by (cases q) (auto simp: swap_colour_def)

lemma placed_flipped:
  assumes "involution64 f"
  shows "placed (flipped_board f b) pt c = f ` placed b pt (\<not> c)"
proof (rule set_eqI)
  fix sq :: nat
  show "sq \<in> placed (flipped_board f b) pt c \<longleftrightarrow> sq \<in> f ` placed b pt (\<not> c)"
  proof
    assume "sq \<in> placed (flipped_board f b) pt c"
    then have lt: "sq < 64" and pm: "piece_map (cur b) (f sq) = Some (Piece pt (\<not> c))"
      by (auto simp: placed_def flipped_board_def piece_map_flipped swap_colour_eq)
    from lt assms have fl: "f sq < 64" and ff: "f (f sq) = sq"
      by (simp_all add: involution64_def)
    from fl pm have "f sq \<in> placed b pt (\<not> c)" by (simp add: placed_def)
    with ff show "sq \<in> f ` placed b pt (\<not> c)" by (metis image_eqI)
  next
    assume "sq \<in> f ` placed b pt (\<not> c)"
    then obtain s where s: "s \<in> placed b pt (\<not> c)" and sq: "sq = f s" by auto
    from s have lt: "s < 64" and pm: "piece_map (cur b) s = Some (Piece pt (\<not> c))"
      by (simp_all add: placed_def)
    from lt assms have "f s < 64" and "f (f s) = s" by (simp_all add: involution64_def)
    with pm show "sq \<in> placed (flipped_board f b) pt c"
      by (simp add: placed_def flipped_board_def piece_map_flipped swap_colour_eq sq)
  qed
qed

lemma inj_on_involution: "involution64 f \<Longrightarrow> inj_on f (placed b pt c)"
  by (rule inj_onI) (metis (mono_tags, lifting) involution64_def mem_Collect_eq placed_def)

lemma card_placed_flipped:
  "involution64 f \<Longrightarrow> card (placed (flipped_board f b) pt c) = card (placed b pt (\<not> c))"
  by (simp add: placed_flipped card_image inj_on_involution)

lemma material_flipped:
  assumes "involution64 f"
  shows "whitematerial (flipped_board f b) = blackmaterial b"
    and "blackmaterial (flipped_board f b) = whitematerial b"
  by (simp_all add: whitematerial_def blackmaterial_def length_pieces card_placed_flipped[OF assms])

lemma endgame_flipped: "involution64 f \<Longrightarrow> endgame (flipped_board f b) = endgame b"
  by (auto simp: endgame_def Let_def material_flipped length_pieces card_placed_flipped)

lemma positional_flipped:
  assumes "involution64 f"
  shows "positional (flipped_board f b) pt c
     = sum (\<lambda>s. square_value pt c (endgame b) (f s)) (placed b pt (\<not> c))"
  by (simp add: positional_def endgame_flipped[OF assms] placed_flipped[OF assms] sum.reindex
      inj_on_involution[OF assms] o_def)

lemma pawns_same: "whitepawns b = blackpawns b"
  by (simp add: whitepawns_def blackpawns_def)

lemma eval_flipped:
  assumes "involution64 f"
    and "\<And>pt c. positional (flipped_board f b) pt c = positional b pt (\<not> c)"
  shows "eval (flipped_board f b) = eval b"
proof -
  have t: "turn (cur (flipped_board f b)) = (\<not> turn (cur b))"
    by (simp add: flipped_board_def turn_flipped)
  show ?thesis
    unfolding eval_def whiteeval_closed blackeval_closed bind_def t
    by (simp add: material_flipped[OF assms(1)] assms(2) endgame_flipped[OF assms(1)]
        pawns_same[of b] pawns_same[of "flipped_board f b"])
qed

text \<open>
  Under the rotation by 180 degrees with the colours swapped the evaluation is the same for
  every position: the rotation is the index flip of \<open>positionalValue\<close>.
\<close>

lemma square_value_rotate:
  "s < 64 \<Longrightarrow> square_value pt c eg (rotate_square s) = square_value pt (\<not> c) eg s"
  by (cases c) (simp_all add: square_value_def rotate_square_def)

lemma eval_rotate: "eval (rotate_board b) = eval b"
  unfolding rotate_board_def
proof (rule eval_flipped[OF involution_rotate])
  fix pt c
  have "sum (\<lambda>s. square_value pt c (endgame b) (rotate_square s)) (placed b pt (\<not> c))
        = sum (square_value pt (\<not> c) (endgame b)) (placed b pt (\<not> c))"
    by (rule sum.cong) (simp_all add: square_value_rotate placed_def)
  then show "positional (flipped_board rotate_square b) pt c = positional b pt (\<not> c)"
    unfolding positional_flipped[OF involution_rotate] by (simp only: positional_def)
qed












subsection \<open>Example positions\<close>

text \<open>White: king e1, pawn e2. Black: king e8. White to move, no legal moves listed.\<close>

definition kp_position :: position where
  "kp_position =
     Position [4 \<mapsto> Piece KING True, 12 \<mapsto> Piece PAWN True, 60 \<mapsto> Piece KING False]
       True False []"

definition kp_board :: board where
  "kp_board = \<lparr>cur = kp_position, stack = []\<rparr>"

text \<open>
  Claim C3 (the pawn-material term of each side is that side's own pawn count times 100)
  fails in the code for black: line 235 computes black's term from the white pawns. With one
  white pawn and no black pawn, black's term is 100, not 0, and the evaluation is -30 where
  own pawn counts would give 70.
\<close>

theorem blackpawns_uses_white_count:
  "length (pieces kp_board PAWN False) = 0 \<and> blackpawns kp_board = 100
   \<and> whitepawns kp_board = 100 \<and> eval kp_board = Inr (- 30)"
proof -
  have p: "pieces kp_board PAWN False = []" "pieces kp_board PAWN True = [12]"
    by code_simp+
  have e: "eval kp_board = Inr (- 30)"
    by code_simp
  show ?thesis
    by (simp add: p e blackpawns_def whitepawns_def PAWN_VALUE_def)
qed

section \<open>Properties of the search\<close>

subsection \<open>The board after a search\<close>

declare quiescence_search.simps [simp del]
declare ab_search.simps [simp del]

lemma pop_push_move: "pop_move (push_move mv s) = Inr s"
  by (simp add: pop_move_def push_move_def pop_def push_def bind_def)

lemma quiescence_state:
  "quiescence_search alpha beta s = Inr (v, s') \<Longrightarrow> s' = s"
  "quiescence_loop alpha beta mvs s = Inr (v, s') \<Longrightarrow> s' = s"
proof (induction alpha beta s and alpha beta mvs s arbitrary: v s' and v s'
    rule: quiescence_search_quiescence_loop.induct)
  case (1 alpha beta s)
  from "1.prems" show ?case
    by (auto simp: quiescence_search.simps split: sum.splits if_splits dest: "1.IH")
next
  case (2 alpha beta s)
  then show ?case by simp
next
  case (3 alpha beta mv mvs s)
  from "3.prems" obtain r s1 s2 where
    q: "quiescence_search (- beta) (- alpha) (push_move mv s) = Inr (r, s1)"
    and p: "pop_move s1 = Inr s2"
    by (auto split: sum.splits)
  from "3.IH"(1)[OF q] have s1: "s1 = push_move mv s" .
  with p have s2: "s2 = s" by (simp add: pop_push_move)
  show ?case
  proof (cases "beta \<le> - r")
    case True
    with "3.prems" q p s2 show ?thesis by simp
  next
    case False
    with "3.prems" q p have
      "quiescence_loop (if alpha < - r then - r else alpha) beta mvs s2 = Inr (v, s')"
      by (simp add: Let_def)
    from "3.IH"(2)[OF q refl p refl False this] s2 show ?thesis by simp
  qed
qed

subsection \<open>The search without pruning\<close>

definition at_position :: "position \<Rightarrow> board" where
  "at_position p = \<lparr>cur = p, stack = []\<rparr>"

definition evaluate :: "position \<Rightarrow> real" where
  "evaluate p = (case eval (at_position p) of Inr v \<Rightarrow> v | Inl e \<Rightarrow> 0)"

function quiesce :: "position \<Rightarrow> real" where
  "quiesce p =
     fold max (map (\<lambda>mv. - quiesce (result mv)) (filter is_capture (legal_moves p))) (evaluate p)"
  by pat_completeness auto

lemma size_member: "mv \<in> set mvs \<Longrightarrow> size (result mv) < size_list size mvs"
proof (induction mvs)
  case Nil
  then show ?case by simp
next
  case (Cons a mvs)
  then show ?case using size_result[of a] by auto
qed

lemma size_legal: "mv \<in> set (legal_moves p) \<Longrightarrow> size (result mv) < size p"
  using size_member[of mv "legal_moves p"] by (simp add: size_cur[of p])

termination quiesce
  by (relation "measure size") (auto simp: size_legal)

definition mate_score :: "position \<Rightarrow> nat \<Rightarrow> real" where
  "mate_score p ply = (if is_check p then - MATE_VALUE + real ply else 0)"

function negamax :: "nat \<Rightarrow> nat \<Rightarrow> position \<Rightarrow> real" where
  "negamax ply max_ply p =
     (if ply = max_ply then quiesce p
      else if legal_moves p = [] then mate_score p ply
      else Max (set (map (\<lambda>mv. - negamax (ply + 1) max_ply (result mv)) (legal_moves p))))"
  by pat_completeness auto

termination negamax
  by (relation "measure (\<lambda>(ply, max_ply, p). size p)") (auto simp: size_legal)

declare quiesce.simps [simp del]
declare negamax.simps [simp del]

lemma pieces_cur: "pieces b = pieces (at_position (cur b))"
  by (simp add: pieces_def at_position_def fun_eq_iff)

lemma eval_cur: "eval b = eval (at_position (cur b))"
proof -
  have m: "whitematerial b = whitematerial (at_position (cur b))"
    "blackmaterial b = blackmaterial (at_position (cur b))"
    "whitepawns b = whitepawns (at_position (cur b))"
    "blackpawns b = blackpawns (at_position (cur b))"
    unfolding whitematerial_def blackmaterial_def whitepawns_def blackpawns_def
    by (simp_all add: pieces_cur[of b])
  have e: "endgame b = endgame (at_position (cur b))"
    unfolding endgame_def by (simp add: pieces_cur[of b] m(1,2))
  have w: "whiteeval b = whiteeval (at_position (cur b))"
    unfolding whiteeval_def by (simp add: pieces_cur[of b] m e)
  have bl: "blackeval b = blackeval (at_position (cur b))"
    unfolding blackeval_def by (simp add: pieces_cur[of b] m e)
  show ?thesis unfolding eval_def w bl by (simp add: at_position_def)
qed

lemma eval_total: "\<exists>v. eval b = Inr v"
  by (simp add: eval_def whiteeval_closed blackeval_closed bind_def)

lemma eval_evaluate: "eval b = Inr (evaluate (cur b))"
proof -
  obtain v where v: "eval (at_position (cur b)) = Inr v" using eval_total by blast
  then show ?thesis by (simp add: eval_cur[of b] evaluate_def)
qed

lemma fold_max_ge: "a \<le> fold max xs (a::real)"
proof (induction xs arbitrary: a)
  case Nil
  show ?case by simp
next
  case (Cons x xs)
  have "a \<le> max x a" by simp
  also have "\<dots> \<le> fold max xs (max x a)" by (rule Cons.IH)
  finally show ?case by simp
qed

lemma fold_max_max: "fold max xs (max a (b::real)) = max a (fold max xs b)"
proof (induction xs arbitrary: b)
  case Nil
  show ?case by simp
next
  case (Cons x xs)
  have "max x (max a b) = max a (max x b)" by simp
  then show ?case by (simp add: Cons.IH)
qed

lemma quiescence_value:
  "alpha \<le> beta \<Longrightarrow>
     quiescence_search alpha beta s = Inr (min beta (max alpha (quiesce (cur (self_board s)))), s)"
  "alpha \<le> beta \<Longrightarrow>
     quiescence_loop alpha beta mvs s
       = Inr (min beta (fold max (map (\<lambda>mv. - quiesce (result mv)) mvs) alpha), s)"
proof (induction alpha beta s and alpha beta mvs s rule: quiescence_search_quiescence_loop.induct)
  case (1 alpha beta s)
  let ?p = "cur (self_board s)"
  let ?caps = "map (\<lambda>mv. - quiesce (result mv)) (gen_moves_q (self_board s))"
  have q: "quiesce ?p = fold max ?caps (evaluate ?p)"
    by (subst quiesce.simps) (simp add: gen_moves_q_def)
  show ?case
  proof (cases "beta \<le> evaluate ?p")
    case True
    have "evaluate ?p \<le> quiesce ?p" unfolding q by (rule fold_max_ge)
    with True "1.prems" show ?thesis
      by (simp add: quiescence_search.simps eval_evaluate)
  next
    case False
    let ?a = "if alpha < evaluate ?p then evaluate ?p else alpha"
    have a: "?a = max (evaluate ?p) alpha" by simp
    have le: "?a \<le> beta" using False "1.prems" by simp
    have "quiescence_loop ?a beta (gen_moves_q (self_board s)) s
          = Inr (min beta (fold max ?caps ?a), s)"
      by (rule "1.IH"[OF eval_evaluate False le])
    moreover have "fold max ?caps ?a = max alpha (quiesce ?p)"
      unfolding a q by (simp add: fold_max_max max.commute)
    ultimately show ?thesis using False
      by (simp add: quiescence_search.simps eval_evaluate)
  qed
next
  case (2 alpha beta s)
  then show ?case by simp
next
  case (3 alpha beta mv mvs s)
  let ?w = "- quiesce (result mv)"
  let ?rest = "map (\<lambda>mv. - quiesce (result mv)) mvs"
  define r where "r = min (- alpha) (max (- beta) (quiesce (result mv)))"
  have c: "cur (self_board (push_move mv s)) = result mv"
    by (simp add: push_move_def push_def)
  have q: "quiescence_search (- beta) (- alpha) (push_move mv s) = Inr (r, push_move mv s)"
    using "3.IH"(1) "3.prems" by (simp add: c r_def)
  have p: "pop_move (push_move mv s) = Inr s" by (rule pop_push_move)
  have val: "- r = max alpha (min beta ?w)" by (simp add: r_def min_def max_def)
  have step: "quiescence_loop alpha beta (mv # mvs) s =
      (if beta \<le> - r then Inr (beta, s)
       else quiescence_loop (if alpha < - r then - r else alpha) beta mvs s)"
    by (simp add: q p Let_def)
  have unfold: "fold max (map (\<lambda>mv. - quiesce (result mv)) (mv # mvs)) alpha
      = fold max ?rest (max ?w alpha)" by simp
  show ?case
  proof (cases "beta \<le> - r")
    case True
    then have "beta \<le> max ?w alpha" unfolding val by (simp add: min_def max_def split: if_splits)
    also have "\<dots> \<le> fold max ?rest (max ?w alpha)" by (rule fold_max_ge)
    finally have "min beta (fold max ?rest (max ?w alpha)) = beta" by simp
    then show ?thesis unfolding step unfold using True by simp
  next
    case False
    let ?a = "if alpha < - r then - r else alpha"
    have a: "?a = max ?w alpha" using False "3.prems" unfolding val
      by (simp add: min_def max_def split: if_splits)
    have le: "?a \<le> beta" using False "3.prems" by (simp split: if_splits)
    have "quiescence_loop ?a beta mvs s = Inr (min beta (fold max ?rest ?a), s)"
      by (rule "3.IH"(2)[OF q refl p refl False le])
    then have "quiescence_loop ?a beta mvs s = Inr (min beta (fold max ?rest (max ?w alpha)), s)"
      by (simp only: a)
    then show ?thesis unfolding step unfold using False by (simp only: if_False)
  qed
qed

subsection \<open>What a search call leaves of the state\<close>

definition frame :: "search_state \<Rightarrow> search_state \<Rightarrow> bool" where
  "frame s s' \<longleftrightarrow>
     self_board s' = self_board s \<and> depth_time s' = depth_time s
     \<and> length (best_move s') = length (best_move s)
     \<and> length (best_eval s') = length (best_eval s)"

lemma frame_refl: "frame s s"
  by (simp add: frame_def)

lemma frame_trans: "frame s s1 \<Longrightarrow> frame s1 s2 \<Longrightarrow> frame s s2"
  by (simp add: frame_def)

lemma frame_tick: "frame s (snd (time_call now s))"
  by (simp add: frame_def time_call_def)

lemma py_store_length: "py_store xs i v = Inr ys \<Longrightarrow> length ys = length xs"
  by (auto simp: py_store_def Let_def split: if_splits)

lemma record_best_frame: "record_best md mv val s = Inr s' \<Longrightarrow> frame s s'"
  by (auto simp: record_best_def bind_def frame_def split: sum.splits dest: py_store_length)

lemma frame_pop_push:
  assumes "frame (push_move mv s0) s1" and "pop_move s1 = Inr s2"
  shows "frame s0 s2" and "s2 = s1\<lparr>self_board := self_board s0\<rparr>"
  using assms
  by (auto simp: frame_def pop_move_def push_move_def pop_def push_def bind_def
      split: sum.splits list.splits)

lemma frame_pop_push_ex:
  assumes "frame (push_move mv s0) s1"
  shows "pop_move s1 = Inr (s1\<lparr>self_board := self_board s0\<rparr>)"
  using assms
  by (auto simp: frame_def pop_move_def push_move_def pop_def push_def bind_def
      split: sum.splits list.splits)

lemma ab_search_frame:
  "ab_search now start_time d md alpha beta time_lim s = Inr (v, s') \<Longrightarrow> frame s s'"
  "ab_loop now start_time d md alpha beta time_lim mvs s = Inr (v, s') \<Longrightarrow> frame s s'"
proof (induction now start_time d md alpha beta time_lim s
    and now start_time d md alpha beta time_lim mvs s arbitrary: v s' and v s'
    rule: ab_search_ab_loop.induct)
  case (1 now start_time d md alpha beta time_lim s)
  show ?case
  proof (cases "d = md")
    case True
    with "1.prems" show ?thesis
      by (auto simp: ab_search.simps frame_refl dest: quiescence_state(1))
  next
    case False
    with "1.prems" show ?thesis
      by (auto simp: ab_search.simps frame_refl split: sum.splits if_splits dest: "1.IH")
  qed
next
  case (2 now start_time d md alpha beta time_lim s)
  then show ?case by (simp add: frame_refl)
next
  case (3 now start_time d md alpha beta time_lim mv mvs s)
  define t where "t = now (ticks s)"
  define s0 where "s0 = s\<lparr>ticks := Suc (ticks s)\<rparr>"
  have tc: "(t, s0) = time_call now s" by (simp add: t_def s0_def time_call_def)
  have f0: "frame s s0" by (simp add: s0_def frame_def)
  show ?case
  proof (cases "time_lim \<le> t - start_time")
    case True
    with "3.prems" tc[symmetric] f0 show ?thesis by (auto split: sum.splits)
  next
    case False
    with "3.prems" tc[symmetric] obtain r s1 s2 where
      a: "ab_search now start_time (d + 1) md (- beta) (- alpha) time_lim (push_move mv s0) = Inr (r, s1)"
      and p: "pop_move s1 = Inr s2"
      by (auto split: sum.splits)
    from "3.IH"(1)[OF tc False a] have "frame (push_move mv s0) s1" .
    from frame_pop_push(1)[OF this p] f0 have f2: "frame s s2" by (rule frame_trans[rotated])
    show ?thesis
    proof (cases "beta \<le> - r")
      case True
      with "3.prems" tc[symmetric] False a p f2 show ?thesis by simp
    next
      case nb: False
      show ?thesis
      proof (cases "alpha < - r")
        case na: False
        with "3.prems" tc[symmetric] False a p nb have
          "ab_loop now start_time d md alpha beta time_lim mvs s2 = Inr (v, s')"
          by (simp add: Let_def)
        from "3.IH"(4)[OF tc False a refl p refl nb na this] f2 show ?thesis
          by (rule frame_trans[rotated])
      next
        case True
        show ?thesis
        proof (cases "d = 0")
          case d0: True
          with "3.prems" tc[symmetric] False a p nb True obtain s3 where
            rb: "record_best md mv (- r) s2 = Inr s3"
            and l: "ab_loop now start_time d md (- r) beta time_lim mvs s3 = Inr (v, s')"
            by (auto simp: Let_def split: sum.splits)
          have "frame s s3" using f2 record_best_frame[OF rb] by (rule frame_trans)
          with "3.IH"(2)[OF tc False a refl p refl nb True d0 rb l] show ?thesis
            by (rule frame_trans[rotated])
        next
          case dn: False
          with "3.prems" tc[symmetric] False a p nb True have
            "ab_loop now start_time d md (- r) beta time_lim mvs s2 = Inr (v, s')"
            by (simp add: Let_def)
          from "3.IH"(3)[OF tc False a refl p refl nb True dn this] f2 show ?thesis
            by (rule frame_trans[rotated])
        qed
      qed
    qed
  qed
qed

subsection \<open>Alpha-beta against the unpruned search\<close>

primrec orderable :: "nat \<Rightarrow> position \<Rightarrow> bool" where
  \<comment> \<open>for \<open>n\<close> plies, sorting the legal moves raises nothing\<close>
  "orderable 0 p = True"
| "orderable (Suc n) p =
     ((case gen_moves (at_position p) of Inl e \<Rightarrow> False | Inr ms \<Rightarrow> True)
      \<and> list_all (\<lambda>mv. orderable n (result mv)) (legal_moves p))"

definition agrees :: "real \<Rightarrow> real \<Rightarrow> real \<Rightarrow> real \<Rightarrow> bool" where
  \<comment> \<open>\<open>v\<close> stands for the exact value \<open>w\<close> as far as the window \<open>(alpha, beta)\<close> can tell\<close>
  "agrees alpha beta w v \<longleftrightarrow>
     (w \<le> alpha \<longrightarrow> v \<le> alpha) \<and> (alpha < w \<and> w < beta \<longrightarrow> v = w) \<and> (beta \<le> w \<longrightarrow> beta \<le> v)"

lemma cur_at_position: "cur (at_position p) = p"
  by (simp add: at_position_def)

lemma piece_at_cur: "piece_at (at_position (cur b)) = piece_at b"
  by (simp add: piece_at_def cur_at_position fun_eq_iff)

lemma heuristic_cur: "heuristic b mv = heuristic (at_position (cur b)) mv"
  unfolding heuristic_def piece_at_cur cur_at_position by (rule refl)

lemma keyed_cur: "keyed b mvs = keyed (at_position (cur b)) mvs"
  by (induction mvs) (simp_all add: heuristic_cur[of b])

lemma gen_moves_cur: "gen_moves b = gen_moves (at_position (cur b))"
  by (simp add: gen_moves_def keyed_cur[of b] cur_at_position)

lemma gen_moves_set: "gen_moves b = Inr ms \<Longrightarrow> set ms = set (legal_moves (cur b))"
  by (drule gen_moves_mset) (rule mset_eq_setD)

lemma fold_max_Max: "xs \<noteq> [] \<Longrightarrow> fold max xs (a::real) = max a (Max (set xs))"
proof (induction xs arbitrary: a)
  case Nil
  then show ?case by simp
next
  case (Cons x xs)
  show ?case
  proof (cases "xs = []")
    case True
    then show ?thesis by (simp add: max.commute)
  next
    case False
    then have "fold max xs (max x a) = max (max x a) (Max (set xs))" by (rule Cons.IH)
    moreover have "Max (set (x # xs)) = max x (Max (set xs))" using False by simp
    ultimately show ?thesis by (simp add: max.assoc max.left_commute max.commute)
  qed
qed

lemma agrees_exact: "agrees alpha beta w w"
  by (simp add: agrees_def)

lemma agrees_clamp: "alpha \<le> beta \<Longrightarrow> agrees alpha beta w (min beta (max alpha w))"
  by (auto simp: agrees_def min_def max_def)

lemma agrees_neg:
  assumes "agrees (- beta) (- alpha) w r" and "alpha < beta"
  shows "beta \<le> - r \<Longrightarrow> beta \<le> - w"
    and "\<not> beta \<le> - r \<Longrightarrow> alpha < - r \<Longrightarrow> - r = - w"
    and "\<not> beta \<le> - r \<Longrightarrow> \<not> alpha < - r \<Longrightarrow> - w \<le> alpha"
  using assms unfolding agrees_def by linarith+

lemma record_best_ok:
  assumes "md < length (best_move s)" and "md < length (best_eval s)"
  shows "\<exists>s'. record_best md mv val s = Inr s'"
  using assms by (simp add: record_best_def py_store_def bind_def)

lemma py_index_ok: "i < length xs \<Longrightarrow> \<exists>x. py_index xs (int i) = Inr x"
  by (simp add: py_index_def)

lemma frame_lengths:
  "frame s s' \<Longrightarrow> length (best_move s') = length (best_move s)"
  "frame s s' \<Longrightarrow> length (best_eval s') = length (best_eval s)"
  "frame s s' \<Longrightarrow> self_board s' = self_board s"
  by (simp_all add: frame_def)

lemma ab_search_value:
  "\<lbrakk>\<forall>i. now i - start_time < time_lim; alpha < beta; d \<le> md;
    orderable (md - d) (cur (self_board s));
    md < length (best_move s); md < length (best_eval s)\<rbrakk>
   \<Longrightarrow> \<exists>v s'. ab_search now start_time d md alpha beta time_lim s = Inr (v, s')
         \<and> agrees alpha beta (negamax d md (cur (self_board s))) v"
  "\<lbrakk>\<forall>i. now i - start_time < time_lim; alpha < beta; d < md;
    list_all (\<lambda>mv. orderable (md - Suc d) (result mv)) mvs;
    md < length (best_move s); md < length (best_eval s)\<rbrakk>
   \<Longrightarrow> \<exists>v s'. ab_loop now start_time d md alpha beta time_lim mvs s = Inr (v, s')
         \<and> v = min beta (fold max (map (\<lambda>mv. - negamax (Suc d) md (result mv)) mvs) alpha)"
proof (induction now start_time d md alpha beta time_lim s
    and now start_time d md alpha beta time_lim mvs s
    rule: ab_search_ab_loop.induct)
  case (1 now start_time d md alpha beta time_lim s)
  let ?p = "cur (self_board s)"
  show ?case
  proof (cases "d = md")
    case True
    have "quiescence_search alpha beta s = Inr (min beta (max alpha (quiesce ?p)), s)"
      using "1.prems"(2) by (intro quiescence_value(1)) simp
    moreover have "negamax d md ?p = quiesce ?p"
      using True by (subst negamax.simps) simp
    ultimately show ?thesis using True "1.prems"(2)
      by (simp add: ab_search.simps agrees_clamp)
  next
    case False
    with "1.prems"(3) have lt: "d < md" by simp
    then obtain n where n: "md - d = Suc n" and n': "md - Suc d = n"
      by (cases "md - d") auto
    from "1.prems"(4) obtain moves where
      g: "gen_moves (self_board s) = Inr moves"
      and ch: "list_all (\<lambda>mv. orderable n (result mv)) (legal_moves ?p)"
      unfolding n by (auto simp: gen_moves_cur[of "self_board s"] split: sum.splits)
    have st: "set moves = set (legal_moves ?p)" by (rule gen_moves_set[OF g])
    show ?thesis
    proof (cases "length moves = 0")
      case True
      then have "legal_moves ?p = []" using st by simp
      then have "negamax d md ?p = scoreEnd (self_board s) d"
        using False by (subst negamax.simps) (simp add: mate_score_def scoreEnd_def)
      then show ?thesis using False g True
        by (simp add: ab_search.simps agrees_exact)
    next
      case ne: False
      have ch': "list_all (\<lambda>mv. orderable (md - Suc d) (result mv)) moves"
        using ch st unfolding n' by (simp add: list_all_iff)
      from "1.IH"[OF False g ne "1.prems"(1,2) lt ch' "1.prems"(5,6)]
      obtain v s' where
        l: "ab_loop now start_time d md alpha beta time_lim moves s = Inr (v, s')"
        and v: "v = min beta (fold max (map (\<lambda>mv. - negamax (Suc d) md (result mv)) moves) alpha)"
        by blast
      let ?f = "\<lambda>mv. - negamax (Suc d) md (result mv)"
      have lne: "legal_moves ?p \<noteq> []" using ne st by auto
      have "negamax d md ?p = Max (set (map ?f (legal_moves ?p)))"
        using False lne by (subst negamax.simps) simp
      also have "\<dots> = Max (set (map ?f moves))" by (simp add: st)
      finally have N: "negamax d md ?p = Max (set (map ?f moves))" .
      have "fold max (map ?f moves) alpha = max alpha (Max (set (map ?f moves)))"
        using ne by (intro fold_max_Max) simp
      then have "v = min beta (max alpha (negamax d md ?p))" by (simp only: v N)
      then have "agrees alpha beta (negamax d md ?p) v"
        using "1.prems"(2) by (simp add: agrees_clamp)
      then show ?thesis using False g ne l by (simp add: ab_search.simps)
    qed
  qed
next
  case (2 now start_time d md alpha beta time_lim s)
  then show ?case by simp
next
  case (3 now start_time d md alpha beta time_lim mv mvs s)
  define t where "t = now (ticks s)"
  define s0 where "s0 = s\<lparr>ticks := Suc (ticks s)\<rparr>"
  have tc: "(t, s0) = time_call now s" by (simp add: t_def s0_def time_call_def)
  have f0: "frame s s0" by (simp add: s0_def frame_def)
  have nt: "\<not> time_lim \<le> t - start_time" using "3.prems"(1) by (simp add: t_def not_le)
  let ?f = "\<lambda>mv. - negamax (Suc d) md (result mv)"
  let ?w = "?f mv"
  let ?rest = "map ?f mvs"
  have unfold: "fold max (map ?f (mv # mvs)) alpha = fold max ?rest (max ?w alpha)" by simp
  have c: "cur (self_board (push_move mv s0)) = result mv"
    by (simp add: push_move_def push_def)
  have len0: "md < length (best_move (push_move mv s0))" "md < length (best_eval (push_move mv s0))"
    using "3.prems"(5,6) by (simp_all add: push_move_def s0_def)
  have o: "orderable (md - (d + 1)) (cur (self_board (push_move mv s0)))"
    and orest: "list_all (\<lambda>mv. orderable (md - Suc d) (result mv)) mvs"
    using "3.prems"(4) by (simp_all add: c)
  have "- beta < - alpha" "d + 1 \<le> md" using "3.prems"(2,3) by simp_all
  from "3.IH"(1)[OF tc nt "3.prems"(1) this o len0] obtain r s1 where
    a: "ab_search now start_time (d + 1) md (- beta) (- alpha) time_lim (push_move mv s0) = Inr (r, s1)"
    and ag: "agrees (- beta) (- alpha) (negamax (Suc d) md (result mv)) r"
    by (auto simp: c)
  have a': "ab_search now start_time (Suc d) md (- beta) (- alpha) time_lim (push_move mv s0) = Inr (r, s1)"
    using a by simp
  have f1: "frame (push_move mv s0) s1" by (rule ab_search_frame(1)[OF a])
  define s2 where "s2 = s1\<lparr>self_board := self_board s0\<rparr>"
  have p: "pop_move s1 = Inr s2" unfolding s2_def by (rule frame_pop_push_ex[OF f1])
  have f2: "frame s s2" using f0 frame_pop_push(1)[OF f1 p] by (rule frame_trans)
  have len2: "md < length (best_move s2)" "md < length (best_eval s2)"
    using "3.prems"(5,6) frame_lengths(1,2)[OF f2] by simp_all
  have step: "ab_loop now start_time d md alpha beta time_lim (mv # mvs) s =
      (if beta \<le> - r then Inr (beta, s2)
       else if alpha < - r then
         (if d = 0 then
            (case record_best md mv (- r) s2 of
               Inl e \<Rightarrow> Inl e
             | Inr s3 \<Rightarrow> ab_loop now start_time d md (- r) beta time_lim mvs s3)
          else ab_loop now start_time d md (- r) beta time_lim mvs s2)
       else ab_loop now start_time d md alpha beta time_lim mvs s2)"
    using nt a' by (simp add: tc[symmetric] p Let_def)
  show ?case
  proof (cases "beta \<le> - r")
    case True
    from agrees_neg(1)[OF ag "3.prems"(2) True] have "beta \<le> max ?w alpha" by simp
    also have "\<dots> \<le> fold max ?rest (max ?w alpha)" by (rule fold_max_ge)
    finally have "min beta (fold max ?rest (max ?w alpha)) = beta" by simp
    then show ?thesis unfolding step unfold using True by simp
  next
    case nb: False
    show ?thesis
    proof (cases "alpha < - r")
      case na: False
      from agrees_neg(3)[OF ag "3.prems"(2) nb na] have m: "max ?w alpha = alpha" by simp
      from "3.IH"(4)[OF tc nt a refl p refl nb na "3.prems"(1,2,3) orest len2]
      show ?thesis unfolding step unfold m using nb na by simp
    next
      case True
      from agrees_neg(2)[OF ag "3.prems"(2) nb True] have w: "- r = ?w" .
      have m: "max ?w alpha = - r" using True w by simp
      have lt: "- r < beta" using nb by simp
      show ?thesis
      proof (cases "d = 0")
        case d0: True
        from record_best_ok[OF len2] obtain s3 where
          rb: "record_best md mv (- r) s2 = Inr s3" by blast
        have f3: "frame s2 s3" by (rule record_best_frame[OF rb])
        have len3: "md < length (best_move s3)" "md < length (best_eval s3)"
          using len2 frame_lengths(1,2)[OF f3] by simp_all
        from "3.IH"(2)[OF tc nt a refl p refl nb True d0 rb "3.prems"(1) lt "3.prems"(3) orest len3]
        show ?thesis unfolding step unfold m using nb True d0 rb by simp
      next
        case dn: False
        from "3.IH"(3)[OF tc nt a refl p refl nb True dn "3.prems"(1) lt "3.prems"(3) orest len2]
        show ?thesis unfolding step unfold m using nb True dn by simp
      qed
    qed
  qed
qed

subsection \<open>Bounds on the scores\<close>

lemma table_entries: "x \<in> set (table_of pt eg) \<Longrightarrow> \<bar>x\<bar> \<le> 100"
  by (cases pt; cases eg)
    (auto simp: table_of_def pawntable_def knighttable_def bishoptable_def rooktable_def
      queentable_def kingtable_def kingtableend_def)

lemma square_value_bound: "sq < 64 \<Longrightarrow> \<bar>square_value pt col eg sq\<bar> \<le> 100"
proof -
  assume "sq < 64"
  then have "(if col then sq else 63 - sq) < length (table_of pt eg)"
    by (cases col) (auto simp: length_table_of)
  then have "square_value pt col eg sq \<in> set (table_of pt eg)"
    unfolding square_value_def by (rule nth_mem)
  then show ?thesis by (rule table_entries)
qed

lemma placed_subset: "placed b pt c \<subseteq> {..<64}"
  by (auto simp: placed_def)

lemma card_placed: "card (placed b pt c) \<le> 64"
  using card_mono[OF _ placed_subset, of b pt c] by simp

lemma length_pieces_le: "real (length (pieces b pt c)) \<le> 64"
  using card_placed[of b pt c] by (simp add: length_pieces)

lemma positional_bound: "\<bar>positional b pt c\<bar> \<le> 6400"
proof -
  have "\<bar>positional b pt c\<bar> \<le> (\<Sum>sq\<in>placed b pt c. \<bar>square_value pt c (endgame b) sq\<bar>)"
    unfolding positional_def by (rule sum_abs)
  also have "\<dots> \<le> (\<Sum>sq\<in>placed b pt c. 100)"
    by (rule sum_mono) (simp add: square_value_bound placed_def)
  also have "\<dots> = 100 * real (card (placed b pt c))" by simp
  also have "\<dots> \<le> 100 * 64" using card_placed[of b pt c] by simp
  finally show ?thesis by simp
qed

lemma material_bound:
  "0 \<le> whitematerial b" "whitematerial b \<le> 137664"
  "0 \<le> blackmaterial b" "blackmaterial b \<le> 137664"
  "0 \<le> whitepawns b" "whitepawns b \<le> 6400"
  "0 \<le> blackpawns b" "blackpawns b \<le> 6400"
  using length_pieces_le[of b KNIGHT True] length_pieces_le[of b BISHOP True]
    length_pieces_le[of b ROOK True] length_pieces_le[of b QUEEN True]
    length_pieces_le[of b KNIGHT False] length_pieces_le[of b BISHOP False]
    length_pieces_le[of b ROOK False] length_pieces_le[of b QUEEN False]
    length_pieces_le[of b PAWN True]
  by (simp_all add: whitematerial_def blackmaterial_def whitepawns_def blackpawns_def
      KNIGHT_VALUE_def BISHOP_VALUE_def ROOK_VALUE_def QUEEN_VALUE_def PAWN_VALUE_def)

lemma side_bound:
  fixes m pw f P N B R Q K :: real
  assumes "0 \<le> m" "m \<le> 137664" "0 \<le> pw" "pw \<le> 6400" "f = 3 / 2 \<or> f = 1"
    "\<bar>P\<bar> \<le> 6400" "\<bar>N\<bar> \<le> 6400" "\<bar>B\<bar> \<le> 6400" "\<bar>R\<bar> \<le> 6400" "\<bar>Q\<bar> \<le> 6400" "\<bar>K\<bar> \<le> 6400"
  shows "\<bar>m + pw + f * P + N + B + R + Q + K\<bar> \<le> 190000"
proof -
  have "\<bar>f * P\<bar> \<le> 9600"
    using assms(5)
  proof
    assume "f = 3 / 2"
    then have "\<bar>f * P\<bar> = 3 / 2 * \<bar>P\<bar>" by (simp add: abs_mult)
    with assms(6) show ?thesis by linarith
  next
    assume "f = 1"
    with assms(6) show ?thesis by simp
  qed
  with assms show ?thesis by linarith
qed

lemma eval_bound: "eval b = Inr v \<Longrightarrow> \<bar>v\<bar> \<le> 380000"
proof -
  assume e: "eval b = Inr v"
  define W where "W = whitematerial b + whitepawns b
     + (if endgame b then 3 / 2 else 1) * positional b PAWN True + positional b KNIGHT True
     + positional b BISHOP True + positional b ROOK True + positional b QUEEN True
     + positional b KING True"
  define B where "B = blackmaterial b + blackpawns b
     + (if endgame b then 3 / 2 else 1) * positional b PAWN False + positional b KNIGHT False
     + positional b BISHOP False + positional b ROOK False + positional b QUEEN False
     + positional b KING False"
  have f: "(if endgame b then 3 / 2 else 1) = (3 / 2 :: real) \<or> (if endgame b then 3 / 2 else 1) = (1::real)"
    by simp
  have w: "\<bar>W\<bar> \<le> 190000" unfolding W_def
    by (rule side_bound[OF material_bound(1,2,5,6) f]) (rule positional_bound)+
  have bl: "\<bar>B\<bar> \<le> 190000" unfolding B_def
    by (rule side_bound[OF material_bound(3,4,7,8) f]) (rule positional_bound)+
  have "eval b = Inr (if turn (cur b) then W - B else B - W)"
    unfolding eval_def whiteeval_closed blackeval_closed bind_def W_def[symmetric] B_def[symmetric]
    by simp
  with e have "v = (if turn (cur b) then W - B else B - W)" by simp
  with w bl show ?thesis by (simp split: if_splits)
qed

lemma evaluate_bound: "\<bar>evaluate p\<bar> \<le> 380000"
  using eval_bound[OF eval_evaluate[of "at_position p"]] by (simp add: cur_at_position)

lemma fold_max_bounds:
  fixes a :: real
  assumes "l \<le> a" "a \<le> u" "\<forall>x\<in>set xs. l \<le> x \<and> x \<le> u"
  shows "l \<le> fold max xs a \<and> fold max xs a \<le> u"
  using assms by (induction xs arbitrary: a) auto

lemma quiesce_bound: "\<bar>quiesce p\<bar> \<le> 380000"
proof (induction p rule: quiesce.induct)
  case (1 p)
  have "\<forall>x\<in>set (map (\<lambda>mv. - quiesce (result mv)) (filter is_capture (legal_moves p))).
          - 380000 \<le> x \<and> x \<le> 380000"
    using "1.IH" by fastforce
  with evaluate_bound[of p] have
    "- 380000 \<le> quiesce p \<and> quiesce p \<le> 380000"
    by (subst (1 2) quiesce.simps) (intro fold_max_bounds, auto)
  then show ?case by (simp add: abs_le_iff)
qed

lemma negamax_bound: "ply \<le> max_ply \<Longrightarrow> max_ply \<le> 100000 \<Longrightarrow> \<bar>negamax ply max_ply p\<bar> \<le> 380000"
proof (induction ply max_ply p rule: negamax.induct)
  case (1 ply max_ply p)
  show ?case
  proof (cases "ply = max_ply")
    case True
    then show ?thesis using quiesce_bound[of p] by (subst negamax.simps) simp
  next
    case False
    show ?thesis
    proof (cases "legal_moves p = []")
      case True
      then show ?thesis using False "1.prems"
        by (subst negamax.simps) (simp add: mate_score_def MATE_VALUE_def)
    next
      case ne: False
      let ?vs = "set (map (\<lambda>mv. - negamax (ply + 1) max_ply (result mv)) (legal_moves p))"
      have fin: "finite ?vs" "?vs \<noteq> {}" using ne by simp_all
      have lt: "ply + 1 \<le> max_ply" using False "1.prems"(1) by simp
      have b: "\<forall>x\<in>?vs. \<bar>x\<bar> \<le> 380000"
        using "1.IH"[OF False ne _ lt "1.prems"(2)] by auto
      have "Max ?vs \<in> ?vs" using fin by (rule Max_in)
      with b have "\<bar>Max ?vs\<bar> \<le> 380000" by blast
      then show ?thesis using False ne by (subst negamax.simps) simp
    qed
  qed
qed

lemma agrees_full_window:
  "agrees NEG_MAX POS_MAX w v \<Longrightarrow> \<bar>w\<bar> \<le> 380000 \<Longrightarrow> v = w"
  by (auto simp: agrees_def NEG_MAX_def POS_MAX_def)

text \<open>
  Claim C2. For every depth \<open>md\<close> the search keeps records for (0 up to \<open>_maxdepth\<close>) and
  every position whose legal moves the ordering can score for \<open>md\<close> plies, the alpha-beta
  search called at the root with the window from \<open>NEG_MAX\<close> to \<open>POS_MAX\<close> and a time budget
  that never expires returns, and its value is the value of \<open>negamax\<close>: the search of the same
  depth that visits every move, with the unpruned quiescence value \<open>quiesce\<close> at its leaves.
\<close>

theorem alpha_beta_equals_negamax:
  assumes "\<forall>i. now i - start_time < time_lim"
    and "orderable md (cur (self_board s))"
    and "md \<le> maxdepth"
    and "length (best_move s) = maxdepth + 1"
    and "length (best_eval s) = maxdepth + 1"
  shows "\<exists>s'. ab_search now start_time 0 md NEG_MAX POS_MAX time_lim s
           = Inr (negamax 0 md (cur (self_board s)), s')"
proof -
  have w: "NEG_MAX < POS_MAX" by (simp add: NEG_MAX_def POS_MAX_def)
  have l: "md < length (best_move s)" "md < length (best_eval s)"
    using assms(3,4,5) by simp_all
  from ab_search_value(1)[OF assms(1) w _ _ l, of 0] assms(2)
  obtain v s' where
    a: "ab_search now start_time 0 md NEG_MAX POS_MAX time_lim s = Inr (v, s')"
    and ag: "agrees NEG_MAX POS_MAX (negamax 0 md (cur (self_board s))) v"
    by auto
  have "md \<le> 100000" using assms(3) by (simp add: maxdepth_def)
  then have "\<bar>negamax 0 md (cur (self_board s))\<bar> \<le> 380000" by (intro negamax_bound) simp_all
  with ag have "v = negamax 0 md (cur (self_board s))" by (rule agrees_full_window)
  with a show ?thesis by blast
qed

subsection \<open>A small game\<close>

text \<open>
  White: king c2 (square 10), queen b8 (57). Black: king a1 (0). White is to move and two of
  its moves are listed: the queen to b3 (17), which stalemates, and the queen to b2 (9), which
  is mate. The ordering puts the mate first (it gives check). The static evaluation prefers
  the stalemating move (1005 against 1000, the queen stands better on b3), so a search of
  depth 1 records the queen to b3 and a search of depth 2 or more the mate.
\<close>

definition ex_mated :: position where
  "ex_mated = Position [0 \<mapsto> Piece KING False, 9 \<mapsto> Piece QUEEN True, 10 \<mapsto> Piece KING True]
     False True []"

definition ex_stalemated :: position where
  "ex_stalemated = Position [0 \<mapsto> Piece KING False, 10 \<mapsto> Piece KING True, 17 \<mapsto> Piece QUEEN True]
     False False []"

definition mv_mate :: legal_move where
  "mv_mate = LegalMove (Move 57 9 None) False True False False ex_mated"

definition mv_stalemate :: legal_move where
  "mv_stalemate = LegalMove (Move 57 17 None) False False False False ex_stalemated"

definition ex_root :: position where
  "ex_root = Position [0 \<mapsto> Piece KING False, 10 \<mapsto> Piece KING True, 57 \<mapsto> Piece QUEEN True]
     True False [mv_stalemate, mv_mate]"

lemma evaluate_ex_mated: "evaluate ex_mated = - 1000"
  by code_simp

lemma evaluate_ex_stalemated: "evaluate ex_stalemated = - 1005"
  by code_simp

lemma evaluate_ex_root: "evaluate ex_root = 990"
  by code_simp

lemma heuristic_ex:
  "heuristic (at_position ex_root) mv_stalemate = Inr 15"
  "heuristic (at_position ex_root) mv_mate = Inr 1010"
  by (simp_all add: heuristic_def mv_stalemate_def mv_mate_def piece_at_def at_position_def ex_root_def
      positionalValue_def py_index_def queentable_def bind_def)

lemma gen_moves_ex_root: "gen_moves (at_position ex_root) = Inr [mv_mate, mv_stalemate]"
proof -
  have l: "legal_moves (cur (at_position ex_root)) = [mv_stalemate, mv_mate]"
    by (simp add: at_position_def ex_root_def)
  show ?thesis unfolding gen_moves_def l by (simp add: heuristic_ex bind_def)
qed

definition ex_board :: board where
  "ex_board = at_position ex_root"

lemma ex_facts:
  "legal_moves ex_root = [mv_stalemate, mv_mate]" "turn ex_root"
  "legal_moves ex_mated = []" "is_check ex_mated"
  "legal_moves ex_stalemated = []" "\<not> is_check ex_stalemated"
  "result mv_mate = ex_mated" "result mv_stalemate = ex_stalemated"
  "move mv_mate = Move 57 9 None" "move mv_stalemate = Move 57 17 None"
  by (simp_all add: ex_root_def ex_mated_def ex_stalemated_def mv_mate_def mv_stalemate_def)

lemma gen_moves_ex:
  "cur b = ex_root \<Longrightarrow> gen_moves b = Inr [mv_mate, mv_stalemate]"
  "cur b = ex_mated \<Longrightarrow> gen_moves b = Inr []"
  "cur b = ex_stalemated \<Longrightarrow> gen_moves b = Inr []"
proof -
  show "cur b = ex_root \<Longrightarrow> gen_moves b = Inr [mv_mate, mv_stalemate]"
    using gen_moves_cur[of b] gen_moves_ex_root by simp
  show "cur b = ex_mated \<Longrightarrow> gen_moves b = Inr []"
    by (simp add: gen_moves_def ex_facts bind_def)
  show "cur b = ex_stalemated \<Longrightarrow> gen_moves b = Inr []"
    by (simp add: gen_moves_def ex_facts bind_def)
qed

lemma quiesce_ex:
  "quiesce ex_mated = - 1000" "quiesce ex_stalemated = - 1005" "quiesce ex_root = 990"
  by (subst quiesce.simps, simp add: ex_facts evaluate_ex_mated evaluate_ex_stalemated evaluate_ex_root
      mv_mate_def mv_stalemate_def)+

lemma scoreEnd_ex:
  "cur b = ex_mated \<Longrightarrow> scoreEnd b d = - 100000 + real d"
  "cur b = ex_stalemated \<Longrightarrow> scoreEnd b d = 0"
  by (simp_all add: scoreEnd_def ex_facts MATE_VALUE_def)

lemma init_state_eq:
  "init_state b = \<lparr>self_board = b, ticks = 0,
      best_eval = [0, 0, 0, 0, 0, 0, 0, 0, 0, 0, 0],
      depth_time = [0, 0, 0, 0, 0, 0, 0, 0, 0, 0, 0],
      best_move = [null_move, null_move, null_move, null_move, null_move, null_move,
        null_move, null_move, null_move, null_move, null_move]\<rparr>"
  by (simp add: init_state_def maxdepth_def numeral_eq_Suc)

lemma depths_eq: "[0..<11] = [0, 1, 2, 3, 4, 5, 6, 7, 8, 9, 10::nat]"
  by (simp add: upt_rec)

lemma sqrt2_bounds: "1 < sqrt 2" "sqrt 2 < 2"
proof -
  show "1 < sqrt 2" by simp
  have "sqrt 2 < sqrt 4" by (rule real_sqrt_less_mono) simp
  also have "sqrt 4 = 2" by simp
  finally show "sqrt 2 < 2" .
qed

lemma cost_below_budget: "0 \<le> x \<Longrightarrow> x \<le> 5 \<Longrightarrow> \<not> 10 < x * sqrt 2"
proof -
  assume "0 \<le> x" "x \<le> 5"
  then have "x * sqrt 2 \<le> 5 * 2"
    using sqrt2_bounds(2) by (intro mult_mono) simp_all
  then show ?thesis by simp
qed


lemmas run_simps =
  search_def maxdepth_def not_worth_it_def get_c_time_left_def truthy_def EXPECTED_MOVES_def
  ab_search.simps init_state_eq depths_eq ex_board_def at_position_def gen_moves_ex ex_facts
  time_call_def push_move_def push_def pop_move_def pop_def bind_def scoreEnd_ex
  NEG_MAX_def POS_MAX_def record_best_def py_store_def py_index_def quiescence_value quiesce_ex
  null_move_def

subsection \<open>Claim C1\<close>

definition clock_cut :: "nat \<Rightarrow> real" where
  \<comment> \<open>the budget of 10 seconds is used up when the second root move is about to be tried\<close>
  "clock_cut i = (if i < 1 then 0 else 11)"

lemma ab_search_cut:
  "\<exists>s'. ab_search clock_cut 0 0 2 NEG_MAX POS_MAX 10 (init_state ex_board) = Inr (99999, s')"
  by (simp add: run_simps clock_cut_def)

text \<open>
  Claim C1. Whenever a call of the alpha-beta search or of the quiescence search returns (at
  the end of the move loop, on a beta cutoff or after a time check has stopped the loop), the
  board is the board of the call: the same position (side to move, piece placement) on top of
  the same stack of earlier positions, every push having been undone by its pop.
\<close>

theorem search_restores_board:
  "(ab_search now start_time d md alpha beta time_lim s = Inr (v, s')
      \<longrightarrow> self_board s' = self_board s)
   \<and> (quiescence_search alpha beta s = Inr (v, s') \<longrightarrow> self_board s' = self_board s)"
proof (intro conjI impI)
  assume "ab_search now start_time d md alpha beta time_lim s = Inr (v, s')"
  then have "frame s s'" by (rule ab_search_frame(1))
  then show "self_board s' = self_board s" by (rule frame_lengths(3))
next
  assume "quiescence_search alpha beta s = Inr (v, s')"
  then have "s' = s" by (rule quiescence_state(1))
  then show "self_board s' = self_board s" by simp
qed

theorem search_restores_board_witness:
  "\<exists>s'. ab_search clock_cut 0 0 2 NEG_MAX POS_MAX 10 (init_state ex_board) = Inr (99999, s')
        \<and> self_board s' = self_board (init_state ex_board)"
proof -
  from ab_search_cut obtain s' where
    a: "ab_search clock_cut 0 0 2 NEG_MAX POS_MAX 10 (init_state ex_board) = Inr (99999, s')"
    by blast
  from search_restores_board[of clock_cut 0 0 2 NEG_MAX POS_MAX 10 "init_state ex_board" 99999 s'] a
  have "self_board s' = self_board (init_state ex_board)" by blast
  with a show ?thesis by blast
qed

subsection \<open>Claim C2\<close>

lemma negamax_ex: "negamax 0 2 ex_root = 99999"
proof -
  have m: "negamax (Suc 0) 2 ex_mated = - 99999" "negamax (Suc 0) 2 ex_stalemated = 0"
    by (subst negamax.simps, simp add: ex_facts mate_score_def MATE_VALUE_def)+
  show ?thesis
    by (subst negamax.simps) (simp add: ex_facts m)
qed

lemma orderable_ex: "orderable 2 ex_root"
  by (simp add: numeral_2_eq_2 gen_moves_ex cur_at_position ex_facts)

theorem alpha_beta_equals_negamax_witness:
  "(\<forall>i. (\<lambda>i. 0) i - 0 < (10::real)) \<and> orderable 2 (cur (self_board (init_state ex_board)))
   \<and> 2 \<le> maxdepth
   \<and> length (best_move (init_state ex_board)) = maxdepth + 1
   \<and> length (best_eval (init_state ex_board)) = maxdepth + 1
   \<and> (\<exists>s'. ab_search (\<lambda>i. 0) 0 0 2 NEG_MAX POS_MAX 10 (init_state ex_board) = Inr (99999, s'))"
proof -
  have c: "cur (self_board (init_state ex_board)) = ex_root"
    by (simp add: init_state_def ex_board_def cur_at_position)
  have h1: "\<forall>i. (\<lambda>i. 0) i - 0 < (10::real)" by simp
  have h2: "orderable 2 (cur (self_board (init_state ex_board)))" by (simp only: c orderable_ex)
  have h3: "2 \<le> maxdepth" by (simp add: maxdepth_def)
  have h4: "length (best_move (init_state ex_board)) = maxdepth + 1"
    and h5: "length (best_eval (init_state ex_board)) = maxdepth + 1"
    by (simp_all add: init_state_def)
  from alpha_beta_equals_negamax[OF h1 h2 h3 h4 h5]
  have "\<exists>s'. ab_search (\<lambda>i. 0) 0 0 2 NEG_MAX POS_MAX 10 (init_state ex_board) = Inr (99999, s')"
    by (simp only: c negamax_ex)
  with h1 h2 h3 h4 h5 show ?thesis by blast
qed

subsection \<open>Claim C4\<close>

text \<open>
  Claim C4 (with no capture available the quiescence search returns exactly the evaluation,
  for every alpha and beta) fails outside the window. In the example the evaluation is -30;
  with the window (0, 10) the search returns alpha = 0, with the window (-100, -50) it
  returns beta = -50.
\<close>

theorem quiescence_stand_pat_counterexample:
  "gen_moves_q (self_board (init_state kp_board)) = []
   \<and> eval (self_board (init_state kp_board)) = Inr (- 30)
   \<and> quiescence_search 0 10 (init_state kp_board) = Inr (0, init_state kp_board)
   \<and> quiescence_search (- 100) (- 50) (init_state kp_board) = Inr (- 50, init_state kp_board)"
proof -
  have b: "self_board (init_state kp_board) = kp_board" by (simp add: init_state_def)
  have g: "gen_moves_q kp_board = []" by (simp add: gen_moves_q_def kp_board_def kp_position_def)
  have e: "eval kp_board = Inr (- 30)" by code_simp
  show ?thesis
    by (simp add: quiescence_search.simps b g e)
qed

text \<open>
  Claim C4 as amended. With no capture available the quiescence search returns the
  evaluation cut to the window: beta when the evaluation is at least beta, the evaluation
  when it lies strictly between alpha and beta, and alpha otherwise; the state is unchanged.
\<close>

theorem quiescence_no_captures:
  assumes "gen_moves_q (self_board s) = []"
  shows "\<exists>standpat. eval (self_board s) = Inr standpat
     \<and> quiescence_search alpha beta s
         = Inr (if beta \<le> standpat then beta else if alpha < standpat then standpat else alpha, s)"
proof -
  have "eval (self_board s) = Inr (evaluate (cur (self_board s)))" by (rule eval_evaluate)
  then show ?thesis using assms by (simp add: quiescence_search.simps)
qed

theorem quiescence_no_captures_witness:
  "gen_moves_q (self_board (init_state kp_board)) = []
   \<and> quiescence_search (- 100) 100 (init_state kp_board) = Inr (- 30, init_state kp_board)"
proof -
  have b: "self_board (init_state kp_board) = kp_board" by (simp add: init_state_def)
  have g: "gen_moves_q (self_board (init_state kp_board)) = []"
    unfolding b by (simp add: gen_moves_q_def kp_board_def kp_position_def)
  have e: "eval kp_board = Inr (- 30)" by code_simp
  from quiescence_no_captures[OF g, of "- 100" 100] e
  show ?thesis using g by (simp add: b)
qed

subsection \<open>Claims C6 and C10: terminal scores and the window\<close>

lemma gen_moves_none: "legal_moves (cur b) = [] \<Longrightarrow> gen_moves b = Inr []"
  by (simp add: gen_moves_def bind_def)

lemma ab_search_terminal:
  assumes "legal_moves (cur (self_board s)) = []" and "d \<noteq> md"
  shows "ab_search now start_time d md alpha beta time_lim s = Inr (scoreEnd (self_board s) d, s)"
  using assms by (simp add: ab_search.simps gen_moves_none)

lemma ab_loop_window:
  "alpha \<le> beta \<Longrightarrow> ab_loop now start_time d md alpha beta time_lim mvs s = Inr (v, s')
     \<Longrightarrow> alpha \<le> v \<and> v \<le> beta"
proof (induction mvs arbitrary: alpha s)
  case Nil
  then show ?case by simp
next
  case (Cons mv mvs)
  define t where "t = now (ticks s)"
  define s0 where "s0 = s\<lparr>ticks := Suc (ticks s)\<rparr>"
  have tc: "time_call now s = (t, s0)" by (simp add: t_def s0_def time_call_def)
  show ?case
  proof (cases "time_lim \<le> t - start_time")
    case True
    with Cons.prems tc show ?thesis by (auto split: sum.splits)
  next
    case False
    with Cons.prems(2) tc obtain r s1 s2 where
      a: "ab_search now start_time (d + 1) md (- beta) (- alpha) time_lim (push_move mv s0) = Inr (r, s1)"
      and p: "pop_move s1 = Inr s2"
      by (auto split: sum.splits)
    have step: "ab_loop now start_time d md alpha beta time_lim (mv # mvs) s =
      (if beta \<le> - r then Inr (beta, s2)
       else if alpha < - r then
         (if d = 0 then
            (case record_best md mv (- r) s2 of
               Inl e \<Rightarrow> Inl e
             | Inr s3 \<Rightarrow> ab_loop now start_time d md (- r) beta time_lim mvs s3)
          else ab_loop now start_time d md (- r) beta time_lim mvs s2)
       else ab_loop now start_time d md alpha beta time_lim mvs s2)"
      using False a by (simp add: tc p Let_def)
    show ?thesis
    proof (cases "beta \<le> - r")
      case True
      with Cons.prems step show ?thesis by simp
    next
      case nb: False
      show ?thesis
      proof (cases "alpha < - r")
        case na: False
        with Cons.prems(2) step nb have
          "ab_loop now start_time d md alpha beta time_lim mvs s2 = Inr (v, s')" by simp
        from Cons.IH[OF Cons.prems(1) this] show ?thesis .
      next
        case True
        have le: "- r \<le> beta" using nb by simp
        from Cons.prems(2) step nb True obtain s3 where
          "ab_loop now start_time d md (- r) beta time_lim mvs s3 = Inr (v, s')"
          by (cases "d = 0") (auto split: sum.splits)
        from Cons.IH[OF le this] True show ?thesis by simp
      qed
    qed
  qed
qed

lemma ab_search_window:
  assumes "alpha \<le> beta"
    and "ab_search now start_time d md alpha beta time_lim s = Inr (v, s')"
    and "d = md \<or> legal_moves (cur (self_board s)) \<noteq> []"
  shows "alpha \<le> v \<and> v \<le> beta"
proof (cases "d = md")
  case True
  with assms(1,2) show ?thesis
    by (auto simp: ab_search.simps quiescence_value(1))
next
  case False
  with assms(3) have ne: "legal_moves (cur (self_board s)) \<noteq> []" by simp
  from assms(2) False obtain moves where
    g: "gen_moves (self_board s) = Inr moves"
    by (auto simp: ab_search.simps split: sum.splits)
  from gen_moves_set[OF g] ne have "moves \<noteq> []" by auto
  with assms(2) False g have
    "ab_loop now start_time d md alpha beta time_lim moves s = Inr (v, s')"
    by (simp add: ab_search.simps)
  from ab_loop_window[OF assms(1) this] show ?thesis .
qed

text \<open>
  A longer mate beside the mate in one: the queen to b7 (square 49) leaves black the king
  move to a2 (8) only, after which the queen to b2 (9) is mate, at ply 3.
\<close>

definition ex_mated_a2 :: position where
  "ex_mated_a2 = Position [8 \<mapsto> Piece KING False, 9 \<mapsto> Piece QUEEN True, 10 \<mapsto> Piece KING True]
     False True []"

definition mv_mate_b2 :: legal_move where
  "mv_mate_b2 = LegalMove (Move 49 9 None) False True False False ex_mated_a2"

definition ex_fled :: position where
  "ex_fled = Position [8 \<mapsto> Piece KING False, 10 \<mapsto> Piece KING True, 49 \<mapsto> Piece QUEEN True]
     True False [mv_mate_b2]"

definition mv_flee :: legal_move where
  "mv_flee = LegalMove (Move 0 8 None) False False False False ex_fled"

definition ex_waited :: position where
  "ex_waited = Position [0 \<mapsto> Piece KING False, 10 \<mapsto> Piece KING True, 49 \<mapsto> Piece QUEEN True]
     False False [mv_flee]"

definition mv_wait :: legal_move where
  "mv_wait = LegalMove (Move 57 49 None) False False False False ex_waited"

definition ex_two_mates :: position where
  "ex_two_mates = Position [0 \<mapsto> Piece KING False, 10 \<mapsto> Piece KING True, 57 \<mapsto> Piece QUEEN True]
     True False [mv_wait, mv_mate]"

definition two_mates_state :: search_state where
  "two_mates_state = init_state (at_position ex_two_mates)"

definition returned_value :: "error + (real \<times> search_state) \<Rightarrow> error + real" where
  "returned_value r = (case r of Inl e \<Rightarrow> Inl e | Inr (v, s) \<Rightarrow> Inr v)"

definition root_move_mates ::
    "(nat \<Rightarrow> real) \<Rightarrow> real \<Rightarrow> real \<Rightarrow> nat \<Rightarrow> search_state \<Rightarrow> nat \<Rightarrow> bool" where
  \<comment> \<open>\<open>t\<close> is the state after a root move that mates at ply \<open>k\<close> of a search of depth \<open>md\<close>:
      the position has the value of being mated at ply \<open>k\<close>, and the search of it runs (the
      budget never expires, the moves can be ordered, the records of depth \<open>md\<close> exist)\<close>
  "root_move_mates now start_time time_lim md t k \<longleftrightarrow>
     negamax 1 md (cur (self_board t)) = - MATE_VALUE + real k
     \<and> (\<forall>i. now i - start_time < time_lim) \<and> 1 \<le> md
     \<and> orderable (md - 1) (cur (self_board t))
     \<and> md < length (best_move t) \<and> md < length (best_eval t)"

lemma ex2_facts:
  "legal_moves ex_two_mates = [mv_wait, mv_mate]" "legal_moves ex_waited = [mv_flee]"
  "legal_moves ex_fled = [mv_mate_b2]" "legal_moves ex_mated_a2 = []" "is_check ex_mated_a2"
  "result mv_wait = ex_waited" "result mv_flee = ex_fled" "result mv_mate_b2 = ex_mated_a2"
  "move mv_wait = Move 57 49 None" "move mv_flee = Move 0 8 None" "move mv_mate_b2 = Move 49 9 None"
  by (simp_all add: ex_two_mates_def ex_waited_def ex_fled_def ex_mated_a2_def mv_wait_def
      mv_flee_def mv_mate_b2_def)

lemma heuristic_ex2:
  "heuristic (at_position ex_waited) mv_flee = Inr 0"
  "heuristic (at_position ex_fled) mv_mate_b2 = Inr 1000"
  by (simp_all add: heuristic_def mv_flee_def mv_mate_b2_def piece_at_def at_position_def
      ex_waited_def ex_fled_def positionalValue_def py_index_def queentable_def bind_def)

lemma gen_moves_ex2:
  "cur b = ex_waited \<Longrightarrow> gen_moves b = Inr [mv_flee]"
  "cur b = ex_fled \<Longrightarrow> gen_moves b = Inr [mv_mate_b2]"
  "cur b = ex_mated_a2 \<Longrightarrow> gen_moves b = Inr []"
proof -
  show "cur b = ex_waited \<Longrightarrow> gen_moves b = Inr [mv_flee]"
    using gen_moves_cur[of b]
    by (simp add: gen_moves_def cur_at_position ex2_facts heuristic_ex2 bind_def)
  show "cur b = ex_fled \<Longrightarrow> gen_moves b = Inr [mv_mate_b2]"
    using gen_moves_cur[of b]
    by (simp add: gen_moves_def cur_at_position ex2_facts heuristic_ex2 bind_def)
  show "cur b = ex_mated_a2 \<Longrightarrow> gen_moves b = Inr []"
    by (simp add: gen_moves_def ex2_facts bind_def)
qed

lemma scoreEnd_ex2: "cur b = ex_mated_a2 \<Longrightarrow> scoreEnd b d = - 100000 + real d"
  by (simp add: scoreEnd_def ex2_facts MATE_VALUE_def)

lemma negamax_ex2:
  "negamax 1 4 ex_mated = - MATE_VALUE + real 1"
  "negamax 1 4 ex_waited = - MATE_VALUE + real 3"
proof -
  show "negamax 1 4 ex_mated = - MATE_VALUE + real 1"
    by (subst negamax.simps) (simp add: ex_facts mate_score_def)
  have a: "negamax (Suc (Suc (Suc 0))) 4 ex_mated_a2 = - MATE_VALUE + 3"
    by (subst negamax.simps) (simp add: ex2_facts mate_score_def)
  have b: "negamax (Suc (Suc 0)) 4 ex_fled = MATE_VALUE - 3"
    by (subst negamax.simps) (simp add: ex2_facts a)
  show "negamax 1 4 ex_waited = - MATE_VALUE + real 3"
    by (subst negamax.simps) (simp add: ex2_facts b)
qed

lemma orderable_ex2: "orderable 3 ex_mated" "orderable 3 ex_waited"
  by (simp_all add: numeral_3_eq_3 gen_moves_ex gen_moves_ex2 cur_at_position ex_facts ex2_facts)

lemmas run2_simps = run_simps two_mates_state_def gen_moves_ex2 ex2_facts scoreEnd_ex2
  returned_value_def

lemma cur_two_mates:
  "cur (self_board (push_move mv_mate two_mates_state)) = ex_mated"
  "cur (self_board (push_move mv_wait two_mates_state)) = ex_waited"
  by (simp_all add: push_move_def push_def ex_facts ex2_facts)

lemma root_move_mates_ex:
  "root_move_mates (\<lambda>i. 0) 0 10 4 (push_move mv_mate two_mates_state) 1"
  "root_move_mates (\<lambda>i. 0) 0 10 4 (push_move mv_wait two_mates_state) 3"
proof -
  have l: "4 < length (best_move (push_move mv t))" "4 < length (best_eval (push_move mv t))"
    if "t = two_mates_state" for mv t
    using that by (simp_all add: push_move_def two_mates_state_def init_state_eq)
  have o: "orderable (4 - 1) ex_mated" "orderable (4 - 1) ex_waited"
    using orderable_ex2 by simp_all
  show "root_move_mates (\<lambda>i. 0) 0 10 4 (push_move mv_mate two_mates_state) 1"
    unfolding root_move_mates_def cur_two_mates
    using negamax_ex2(1) o(1) l[OF refl, of mv_mate] by simp
  show "root_move_mates (\<lambda>i. 0) 0 10 4 (push_move mv_wait two_mates_state) 3"
    unfolding root_move_mates_def cur_two_mates
    using negamax_ex2(2) o(2) l[OF refl, of mv_wait] by simp
qed

lemma root_move_score:
  assumes "root_move_mates now start_time time_lim md t k" and "a < b"
  shows "\<exists>r t'. ab_search now start_time 1 md (- b) (- a) time_lim t = Inr (r, t')
           \<and> agrees (- b) (- a) (- MATE_VALUE + real k) r"
proof -
  from assms(1) have n: "negamax 1 md (cur (self_board t)) = - MATE_VALUE + real k"
    and c: "\<forall>i. now i - start_time < time_lim" and d: "1 \<le> md"
    and o: "orderable (md - 1) (cur (self_board t))"
    and l: "md < length (best_move t)" "md < length (best_eval t)"
    unfolding root_move_mates_def by blast+
  from assms(2) have w: "- b < - a" by simp
  from ab_search_value(1)[OF c w d o l] n show ?thesis by simp
qed

text \<open>
  Claim C6 (a position without legal moves reached at ply \<open>d\<close> is scored \<open>-MATE + d\<close> in
  check and 0 otherwise; at the root the mate in fewer plies always scores strictly higher)
  fails twice. At the horizon, \<open>d = md\<close>, the search returns the quiescence value before it
  looks at the legal moves: the mated position of the example, reached at ply 1 of a search
  of depth 1, is scored by its evaluation -1000, not -99999. And at the root the window
  decides: in the game with two mates, searched to depth 4, the mate in one is scored 99999;
  the queen to b7, which mates at ply 3 (the position after it has the value -99997), is
  searched next with alpha = 99999 and is scored 99999 as well, not less.
\<close>

theorem mate_at_horizon_counterexample:
  "legal_moves (cur (self_board (push_move mv_mate (init_state ex_board)))) = []
   \<and> is_check (cur (self_board (push_move mv_mate (init_state ex_board))))
   \<and> ab_search (\<lambda>i. 0) 0 1 1 NEG_MAX POS_MAX 10 (push_move mv_mate (init_state ex_board))
       = Inr (- 1000, push_move mv_mate (init_state ex_board))
   \<and> returned_value (ab_search (\<lambda>i. 0) 0 1 4 (- POS_MAX) (- NEG_MAX) 10
        (push_move mv_mate two_mates_state)) = Inr (- 99999)
   \<and> negamax 1 4 (cur (self_board (push_move mv_wait two_mates_state))) = - 99997
   \<and> returned_value (ab_search (\<lambda>i. 0) 0 1 4 (- POS_MAX) (- 99999) 10
        (push_move mv_wait two_mates_state)) = Inr (- 99999)"
proof -
  have c: "cur (self_board (push_move mv_mate (init_state ex_board))) = ex_mated"
    by (simp add: push_move_def push_def ex_facts)
  have w: "NEG_MAX \<le> POS_MAX" by (simp add: NEG_MAX_def POS_MAX_def)
  have "quiescence_search NEG_MAX POS_MAX (push_move mv_mate (init_state ex_board))
        = Inr (min POS_MAX (max NEG_MAX (quiesce ex_mated)), push_move mv_mate (init_state ex_board))"
    using quiescence_value(1)[OF w, of "push_move mv_mate (init_state ex_board)"] by (simp only: c)
  then have h: "ab_search (\<lambda>i. 0) 0 1 1 NEG_MAX POS_MAX 10 (push_move mv_mate (init_state ex_board))
       = Inr (- 1000, push_move mv_mate (init_state ex_board))"
    by (simp add: ab_search.simps quiesce_ex NEG_MAX_def POS_MAX_def)
  have t1: "returned_value (ab_search (\<lambda>i. 0) 0 1 4 (- POS_MAX) (- NEG_MAX) 10
      (push_move mv_mate two_mates_state)) = Inr (- 99999)"
    by (simp add: run2_simps)
  have t2: "returned_value (ab_search (\<lambda>i. 0) 0 1 4 (- POS_MAX) (- 99999) 10
      (push_move mv_wait two_mates_state)) = Inr (- 99999)"
    by (simp add: run2_simps)
  have n: "negamax 1 4 (cur (self_board (push_move mv_wait two_mates_state))) = - 99997"
    unfolding cur_two_mates negamax_ex2(2) by (simp add: MATE_VALUE_def)
  from h t1 t2 n show ?thesis by (simp add: c ex_facts)
qed

text \<open>
  Claim C6 as amended. A position without legal moves reached at a ply \<open>d\<close> other than the
  horizon is scored \<open>-MATE + d\<close> when the side to move is in check and 0 when it is not,
  whatever the window, and the state is unchanged; at the horizon the search returns what the
  quiescence search returns. A root move that mates at ply \<open>k\<close>, searched with the window
  \<open>(alpha, beta)\<close> of the root, is scored \<open>MATE - k\<close> when that number lies strictly between
  alpha and beta, at most alpha when \<open>MATE - k \<le> alpha\<close> and at least beta when
  \<open>beta \<le> MATE - k\<close>. So of two mating root moves each searched with its value strictly
  inside the window, the one in fewer plies is scored strictly higher.
\<close>

theorem terminal_scores:
  "(legal_moves (cur (self_board s)) = [] \<and> d \<noteq> md \<longrightarrow>
      ab_search now start_time d md alpha beta time_lim s
        = Inr (if is_check (cur (self_board s)) then - MATE_VALUE + real d else 0, s))
   \<and> ab_search now start_time md md alpha beta time_lim s = quiescence_search alpha beta s
   \<and> (root_move_mates now start_time time_lim md t k \<and> a < b \<longrightarrow>
        (\<exists>r t'. ab_search now start_time 1 md (- b) (- a) time_lim t = Inr (r, t')
           \<and> (a < MATE_VALUE - real k \<and> MATE_VALUE - real k < b \<longrightarrow> - r = MATE_VALUE - real k)
           \<and> (MATE_VALUE - real k \<le> a \<longrightarrow> - r \<le> a)
           \<and> (b \<le> MATE_VALUE - real k \<longrightarrow> b \<le> - r)))
   \<and> (root_move_mates now start_time time_lim md t1 k1
       \<and> root_move_mates now start_time time_lim md t2 k2 \<and> k1 < k2
       \<and> a1 < MATE_VALUE - real k1 \<and> MATE_VALUE - real k1 < b1
       \<and> a2 < MATE_VALUE - real k2 \<and> MATE_VALUE - real k2 < b2 \<longrightarrow>
        (\<exists>r1 u1 r2 u2.
           ab_search now start_time 1 md (- b1) (- a1) time_lim t1 = Inr (r1, u1)
           \<and> ab_search now start_time 1 md (- b2) (- a2) time_lim t2 = Inr (r2, u2)
           \<and> - r2 < - r1))"
proof (intro conjI impI)
  assume "legal_moves (cur (self_board s)) = [] \<and> d \<noteq> md"
  then show "ab_search now start_time d md alpha beta time_lim s
        = Inr (if is_check (cur (self_board s)) then - MATE_VALUE + real d else 0, s)"
    by (simp add: ab_search_terminal scoreEnd_def)
next
  show "ab_search now start_time md md alpha beta time_lim s = quiescence_search alpha beta s"
    by (simp add: ab_search.simps)
next
  assume h: "root_move_mates now start_time time_lim md t k \<and> a < b"
  then obtain r t' where
    e: "ab_search now start_time 1 md (- b) (- a) time_lim t = Inr (r, t')"
    and g: "agrees (- b) (- a) (- MATE_VALUE + real k) r"
    using root_move_score by blast
  from g have "(a < MATE_VALUE - real k \<and> MATE_VALUE - real k < b \<longrightarrow> - r = MATE_VALUE - real k)
      \<and> (MATE_VALUE - real k \<le> a \<longrightarrow> - r \<le> a) \<and> (b \<le> MATE_VALUE - real k \<longrightarrow> b \<le> - r)"
    unfolding agrees_def by linarith
  with e show "\<exists>r t'. ab_search now start_time 1 md (- b) (- a) time_lim t = Inr (r, t')
           \<and> (a < MATE_VALUE - real k \<and> MATE_VALUE - real k < b \<longrightarrow> - r = MATE_VALUE - real k)
           \<and> (MATE_VALUE - real k \<le> a \<longrightarrow> - r \<le> a)
           \<and> (b \<le> MATE_VALUE - real k \<longrightarrow> b \<le> - r)"
    by blast
next
  assume h: "root_move_mates now start_time time_lim md t1 k1
       \<and> root_move_mates now start_time time_lim md t2 k2 \<and> k1 < k2
       \<and> a1 < MATE_VALUE - real k1 \<and> MATE_VALUE - real k1 < b1
       \<and> a2 < MATE_VALUE - real k2 \<and> MATE_VALUE - real k2 < b2"
  then have w: "a1 < b1" "a2 < b2" by linarith+
  from h w(1) obtain r1 u1 where
    e1: "ab_search now start_time 1 md (- b1) (- a1) time_lim t1 = Inr (r1, u1)"
    and g1: "agrees (- b1) (- a1) (- MATE_VALUE + real k1) r1"
    using root_move_score by blast
  from h w(2) obtain r2 u2 where
    e2: "ab_search now start_time 1 md (- b2) (- a2) time_lim t2 = Inr (r2, u2)"
    and g2: "agrees (- b2) (- a2) (- MATE_VALUE + real k2) r2"
    using root_move_score by blast
  from h g1 have v1: "- r1 = MATE_VALUE - real k1" unfolding agrees_def by linarith
  from h g2 have v2: "- r2 = MATE_VALUE - real k2" unfolding agrees_def by linarith
  from h have "real k1 < real k2" by simp
  with v1 v2 have "- r2 < - r1" by linarith
  with e1 e2 show "\<exists>r1 u1 r2 u2.
           ab_search now start_time 1 md (- b1) (- a1) time_lim t1 = Inr (r1, u1)
           \<and> ab_search now start_time 1 md (- b2) (- a2) time_lim t2 = Inr (r2, u2)
           \<and> - r2 < - r1"
    by blast
qed

theorem terminal_scores_witness:
  "legal_moves (cur (self_board (push_move mv_mate two_mates_state))) = [] \<and> (1::nat) \<noteq> 4
   \<and> ab_search (\<lambda>i. 0) 0 1 4 NEG_MAX POS_MAX 10 (push_move mv_mate two_mates_state)
       = Inr (- 99999, push_move mv_mate two_mates_state)
   \<and> root_move_mates (\<lambda>i. 0) 0 10 4 (push_move mv_mate two_mates_state) 1
   \<and> root_move_mates (\<lambda>i. 0) 0 10 4 (push_move mv_wait two_mates_state) 3
   \<and> (\<exists>r u. ab_search (\<lambda>i. 0) 0 1 4 (- POS_MAX) (- NEG_MAX) 10
          (push_move mv_wait two_mates_state) = Inr (r, u) \<and> - r = 99997)
   \<and> (\<exists>r u. ab_search (\<lambda>i. 0) 0 1 4 (- POS_MAX) (- 99999) 10
          (push_move mv_wait two_mates_state) = Inr (r, u) \<and> - r \<le> 99999)
   \<and> (\<exists>r1 u1 r2 u2.
        ab_search (\<lambda>i. 0) 0 1 4 (- POS_MAX) (- NEG_MAX) 10
          (push_move mv_mate two_mates_state) = Inr (r1, u1)
        \<and> ab_search (\<lambda>i. 0) 0 1 4 (- POS_MAX) (- NEG_MAX) 10
          (push_move mv_wait two_mates_state) = Inr (r2, u2)
        \<and> - r2 < - r1)"
proof -
  let ?T1 = "push_move mv_mate two_mates_state"
  let ?T2 = "push_move mv_wait two_mates_state"
  note m = root_move_mates_ex
  have h: "legal_moves (cur (self_board ?T1)) = [] \<and> (1::nat) \<noteq> 4"
    by (simp add: cur_two_mates ex_facts)
  have chk: "is_check (cur (self_board ?T1))" by (simp add: cur_two_mates ex_facts)
  have w: "(99999::real) < POS_MAX" "NEG_MAX < POS_MAX"
    "NEG_MAX < MATE_VALUE - real (1::nat)" "MATE_VALUE - real (1::nat) < POS_MAX"
    "NEG_MAX < MATE_VALUE - real (3::nat)" "MATE_VALUE - real (3::nat) < POS_MAX"
    "MATE_VALUE - real (3::nat) \<le> 99999" "(1::nat) < 3"
    by (simp_all add: NEG_MAX_def POS_MAX_def MATE_VALUE_def)
  have v: "MATE_VALUE - real (3::nat) = 99997" "- MATE_VALUE + real (1::nat) = - 99999"
    by (simp_all add: MATE_VALUE_def)
  note T = terminal_scores[where s = ?T1 and d = 1 and md = 4 and now = "\<lambda>i. 0" and start_time = 0
      and alpha = NEG_MAX and beta = POS_MAX and time_lim = 10
      and t = ?T2 and k = 3 and b = POS_MAX
      and ?t1.0 = ?T1 and ?k1.0 = 1 and ?a1.0 = NEG_MAX and ?b1.0 = POS_MAX
      and ?t2.0 = ?T2 and ?k2.0 = 3 and ?a2.0 = NEG_MAX and ?b2.0 = POS_MAX]
  from T[where a = 99999] h chk have A:
    "ab_search (\<lambda>i. 0) 0 1 4 NEG_MAX POS_MAX 10 ?T1 = Inr (- MATE_VALUE + real (1::nat), ?T1)"
    by simp
  have A': "ab_search (\<lambda>i. 0) 0 1 4 NEG_MAX POS_MAX 10 ?T1 = Inr (- 99999, ?T1)"
    unfolding A v by (rule refl)
  from T[where a = 99999] m(2) w(1,7) have B:
    "\<exists>r u. ab_search (\<lambda>i. 0) 0 1 4 (- POS_MAX) (- 99999) 10 ?T2 = Inr (r, u) \<and> - r \<le> 99999"
    by blast
  from T[where a = NEG_MAX] m(2) w(2,5,6) have
    "\<exists>r u. ab_search (\<lambda>i. 0) 0 1 4 (- POS_MAX) (- NEG_MAX) 10 ?T2 = Inr (r, u)
        \<and> - r = MATE_VALUE - real (3::nat)"
    by blast
  then have C:
    "\<exists>r u. ab_search (\<lambda>i. 0) 0 1 4 (- POS_MAX) (- NEG_MAX) 10 ?T2 = Inr (r, u) \<and> - r = 99997"
    unfolding v .
  from T[where a = NEG_MAX] m w(3,4,5,6,8) have D:
    "\<exists>r1 u1 r2 u2.
        ab_search (\<lambda>i. 0) 0 1 4 (- POS_MAX) (- NEG_MAX) 10 ?T1 = Inr (r1, u1)
        \<and> ab_search (\<lambda>i. 0) 0 1 4 (- POS_MAX) (- NEG_MAX) 10 ?T2 = Inr (r2, u2)
        \<and> - r2 < - r1"
    by blast
  from h A' m C B D show ?thesis by blast
qed

text \<open>
  Claim C10 (every value returned lies in the closed interval from alpha to beta) fails for
  the alpha-beta search at a position without legal moves below the horizon: the terminal
  score is returned as it is. The stalemate of the example, reached at ply 1 of a search of
  depth 2 with the window (10, 20), is scored 0.
\<close>

theorem terminal_score_outside_window_counterexample:
  "(10::real) \<le> 20
   \<and> ab_search (\<lambda>i. 0) 0 1 2 10 20 100 (push_move mv_stalemate (init_state ex_board))
       = Inr (0, push_move mv_stalemate (init_state ex_board))
   \<and> \<not> (10::real) \<le> 0"
proof -
  have c: "cur (self_board (push_move mv_stalemate (init_state ex_board))) = ex_stalemated"
    by (simp add: push_move_def push_def ex_facts)
  have "ab_search (\<lambda>i. 0) 0 1 2 10 20 100 (push_move mv_stalemate (init_state ex_board))
       = Inr (scoreEnd (self_board (push_move mv_stalemate (init_state ex_board))) 1,
              push_move mv_stalemate (init_state ex_board))"
    by (rule ab_search_terminal) (simp_all add: c ex_facts)
  then show ?thesis by (simp add: scoreEnd_ex(2)[OF c])
qed

text \<open>
  Claim C10 as amended. With alpha at most beta, the quiescence search always returns a value
  between alpha and beta; the alpha-beta search returns a value between alpha and beta
  whenever it returns at the horizon or from a position that has a legal move (loop end,
  cutoff or time check alike); from a position without legal moves below the horizon it
  returns the terminal score, whatever the window.
\<close>

theorem returned_value_in_window:
  assumes "alpha \<le> beta"
  shows "(\<exists>v. quiescence_search alpha beta s = Inr (v, s) \<and> alpha \<le> v \<and> v \<le> beta)
   \<and> (\<forall>v s'. ab_search now start_time d md alpha beta time_lim s = Inr (v, s')
         \<and> (d = md \<or> legal_moves (cur (self_board s)) \<noteq> []) \<longrightarrow> alpha \<le> v \<and> v \<le> beta)
   \<and> (d \<noteq> md \<and> legal_moves (cur (self_board s)) = [] \<longrightarrow>
        ab_search now start_time d md alpha beta time_lim s = Inr (scoreEnd (self_board s) d, s))"
proof (intro conjI allI impI)
  show "\<exists>v. quiescence_search alpha beta s = Inr (v, s) \<and> alpha \<le> v \<and> v \<le> beta"
    using assms by (simp add: quiescence_value(1))
next
  fix v s'
  assume "ab_search now start_time d md alpha beta time_lim s = Inr (v, s')
         \<and> (d = md \<or> legal_moves (cur (self_board s)) \<noteq> [])"
  then show "alpha \<le> v" "v \<le> beta" using ab_search_window[OF assms] by blast+
next
  assume "d \<noteq> md \<and> legal_moves (cur (self_board s)) = []"
  then show "ab_search now start_time d md alpha beta time_lim s = Inr (scoreEnd (self_board s) d, s)"
    by (simp add: ab_search_terminal)
qed

theorem returned_value_in_window_witness:
  "NEG_MAX \<le> POS_MAX
   \<and> (\<exists>s'. ab_search clock_cut 0 0 2 NEG_MAX POS_MAX 10 (init_state ex_board) = Inr (99999, s'))
   \<and> legal_moves (cur (self_board (init_state ex_board))) \<noteq> []
   \<and> NEG_MAX \<le> 99999 \<and> 99999 \<le> POS_MAX"
proof -
  have w: "NEG_MAX \<le> POS_MAX" by (simp add: NEG_MAX_def POS_MAX_def)
  have l: "legal_moves (cur (self_board (init_state ex_board))) \<noteq> []"
    by (simp add: init_state_def ex_board_def cur_at_position ex_facts)
  from ab_search_cut obtain s' where
    a: "ab_search clock_cut 0 0 2 NEG_MAX POS_MAX 10 (init_state ex_board) = Inr (99999, s')"
    by blast
  from returned_value_in_window[OF w, of "init_state ex_board" clock_cut 0 0 2 10] a l
  have "NEG_MAX \<le> 99999 \<and> 99999 \<le> POS_MAX" by blast
  with w a l show ?thesis by blast
qed

subsection \<open>The driver: claims C7, C8 and C9\<close>

lemma cost_above_budget: "10 < 8 * sqrt 2"
proof -
  have "(5 / 4) ^ 2 < (2::real)" by (simp add: power2_eq_square)
  then have "5 / 4 < sqrt 2" by (rule real_less_rsqrt)
  then show ?thesis by simp
qed

lemmas driver_simps = run_simps cost_below_budget cost_above_budget

lemma get_c_time_left_own_clock:
  "turn (cur b) \<Longrightarrow> white_clock tc = Some t \<Longrightarrow> t \<noteq> 0 \<Longrightarrow> get_c_time_left b tc = Some t"
  "\<not> turn (cur b) \<Longrightarrow> black_clock tc = Some t \<Longrightarrow> t \<noteq> 0 \<Longrightarrow> get_c_time_left b tc = Some t"
  by (simp_all add: get_c_time_left_def truthy_def)

lemma search_emergency:
  assumes "get_c_time_left b tc = Some t" and "t \<le> 5"
  shows "search now b tc =
     bind (ab_search now (now 0) 0 2 NEG_MAX POS_MAX 100000 ((init_state b)\<lparr>ticks := 1\<rparr>))
       (\<lambda>(v, s'). py_index (best_move s') 2)"
  using assms by (simp add: search_def time_call_def init_state_def)

lemma not_worth_it_value:
  assumes "get_c_time_left (self_board s) tc = Some base"
  shows "not_worth_it base tc d s =
     bind (py_index (depth_time s) (int d - 1)) (\<lambda>prev.
       Inr (base / EXPECTED_MOVES < prev * sqrt (real (length (legal_moves (cur (self_board s)))))))"
  using assms by (simp add: not_worth_it_def)

lemma ab_search_depth_0:
  "ab_search now start_time 0 0 NEG_MAX POS_MAX time_lim s
     = Inr (min POS_MAX (max NEG_MAX (quiesce (cur (self_board s)))), s)"
proof -
  have "NEG_MAX \<le> POS_MAX" by (simp add: NEG_MAX_def POS_MAX_def)
  then show ?thesis by (simp add: ab_search.simps quiescence_value(1))
qed

lemma search_exhausted_after_depth_0:
  assumes "get_c_time_left b tc = Some base" and "5 < base"
    and "base / EXPECTED_MOVES \<le> now 3 - now 0"
  shows "search now b tc = Inr null_move"
  using assms
  by (simp add: search_def time_call_def init_state_eq maxdepth_def depths_eq not_worth_it_def
      bind_def py_index_def py_store_def EXPECTED_MOVES_def ab_search_depth_0 numeral_3_eq_3)

definition tc_325 :: time_limit where
  \<comment> \<open>325 seconds on both clocks: a budget of 10 seconds for the move\<close>
  "tc_325 = \<lparr>white_clock = Some 325, black_clock = Some 325\<rparr>"

definition clock_after_depth_0 :: "nat \<Rightarrow> real" where
  \<comment> \<open>11 seconds have passed when depth 0 is done\<close>
  "clock_after_depth_0 i = (if i < 3 then 0 else 11)"

definition clock_after_depth_1 :: "nat \<Rightarrow> real" where
  \<comment> \<open>depth 0 takes no time, 11 seconds have passed when depth 1 is done\<close>
  "clock_after_depth_1 i = (if i < 8 then 0 else 11)"

text \<open>
  Claim C7 (when the budget runs out in normal mode, the move returned is a legal move of the
  position) fails in the code. The depth-0 search is the quiescence search alone and records
  no move, and before depth 0 the "previous depth" is index -1, the last entry of the
  records. With the budget used up after depth 0, or after depth 1, \<open>search\<close> returns the
  null move the records were filled with, which is not a legal move.
\<close>

theorem budget_exhausted_returns_null_move:
  "search clock_after_depth_0 ex_board tc_325 = Inr null_move
   \<and> search clock_after_depth_1 ex_board tc_325 = Inr null_move
   \<and> map move (legal_moves (cur ex_board)) = [Move 57 17 None, Move 57 9 None]
   \<and> null_move \<notin> set (map move (legal_moves (cur ex_board)))"
proof -
  have "search clock_after_depth_0 ex_board tc_325 = Inr null_move"
    by (simp add: driver_simps tc_325_def clock_after_depth_0_def)
  moreover have "search clock_after_depth_1 ex_board tc_325 = Inr null_move"
    by (simp add: driver_simps tc_325_def clock_after_depth_1_def)
  ultimately show ?thesis
    by (simp add: ex_board_def cur_at_position ex_facts null_move_def)
qed

definition clock_late :: "nat \<Rightarrow> real" where
  \<comment> \<open>20 seconds have passed when depth 0 is done\<close>
  "clock_late i = (if i < 3 then 0 else 20)"

text \<open>
  Claim C8 (with at most 5 seconds on the clock of the side to move, one search of depth 2 is
  run and its best move returned) fails in the code when that clock reads exactly 0: line 399
  tests the clock for truth, and 0.0 is false like \<open>None\<close>. White to move with 0 seconds and
  no black clock: \<open>search\<close> raises. White to move with 0 seconds and 600 seconds on black's
  clock: \<open>search\<close> takes black's 600 seconds, runs in normal mode and, with the budget
  used up after depth 0, returns the null move.
\<close>

theorem zero_clock_is_not_emergency_mode:
  "turn (cur ex_board)
   \<and> search (\<lambda>i. 0) ex_board \<lparr>white_clock = Some 0, black_clock = None\<rparr> = Inl TypeError
   \<and> get_c_time_left ex_board \<lparr>white_clock = Some 0, black_clock = Some 600\<rparr> = Some 600
   \<and> search clock_late ex_board \<lparr>white_clock = Some 0, black_clock = Some 600\<rparr> = Inr null_move
   \<and> search clock_late ex_board \<lparr>white_clock = Some 1, black_clock = Some 600\<rparr>
       = Inr (Move 57 9 None)"
proof -
  have "search clock_late ex_board \<lparr>white_clock = Some 0, black_clock = Some 600\<rparr> = Inr null_move"
    by (simp add: driver_simps clock_late_def)
  moreover have "search clock_late ex_board \<lparr>white_clock = Some 1, black_clock = Some 600\<rparr>
       = Inr (Move 57 9 None)"
    by (simp add: driver_simps clock_late_def)
  moreover have "search (\<lambda>i. 0) ex_board \<lparr>white_clock = Some 0, black_clock = None\<rparr> = Inl TypeError"
    by (simp add: driver_simps)
  ultimately show ?thesis
    by (simp add: get_c_time_left_def truthy_def ex_board_def cur_at_position ex_facts)
qed

definition clock_slow_depth_1 :: "nat \<Rightarrow> real" where
  \<comment> \<open>depth 0 takes 2 seconds, depth 1 takes 4 seconds and ends 6 seconds after the start;
      every later depth takes no time\<close>
  "clock_slow_depth_1 i = (if i < 2 then 0 else if i < 5 then 2 else 6)"

definition clock_slower_depth_1 :: "nat \<Rightarrow> real" where
  \<comment> \<open>depth 0 takes no time, depth 1 takes 8 seconds\<close>
  "clock_slower_depth_1 i = (if i < 7 then 0 else 8)"

text \<open>
  Claim C9 (before each depth the time left of the budget, budget minus time elapsed, is
  compared with the projected cost) fails in the code: line 419 computes the elapsed time as
  \<open>base_time_left - get_c_time_left()\<close>, and \<open>get_c_time_left\<close> reads the same time control
  again, so the elapsed time is always 0 and the whole budget is compared. With a budget of
  10 seconds, depth 1 done after 6 seconds and having taken 4, the projected cost of depth 2
  is \<open>4 * sqrt 2\<close>, more than the 4 seconds left but less than 10: the code goes on to
  depth 2 and deeper and returns the move of depth 10 (the mate), not the move recorded at
  depth 1 (the stalemating move, which it does return when depth 1 has taken 8 seconds).
\<close>

theorem affordability_test_ignores_elapsed_time:
  "clock_slow_depth_1 8 - clock_slow_depth_1 0 = 6
   \<and> clock_slow_depth_1 7 - clock_slow_depth_1 4 = 4
   \<and> 10 - (6::real) < 4 * sqrt (real (length (legal_moves (cur ex_board))))
   \<and> search clock_slow_depth_1 ex_board tc_325 = Inr (Move 57 9 None)
   \<and> search clock_slower_depth_1 ex_board tc_325 = Inr (Move 57 17 None)"
proof -
  have "search clock_slow_depth_1 ex_board tc_325 = Inr (Move 57 9 None)"
    by (simp add: driver_simps tc_325_def clock_slow_depth_1_def)
  moreover have "search clock_slower_depth_1 ex_board tc_325 = Inr (Move 57 17 None)"
    by (simp add: driver_simps tc_325_def clock_slower_depth_1_def)
  moreover have "10 - (6::real) < 4 * sqrt 2" using sqrt2_bounds(1) by simp
  ultimately show ?thesis
    by (simp add: clock_slow_depth_1_def ex_board_def cur_at_position ex_facts)
qed

end
